theory Spec2Isabelle
  imports Complex_Main "HOL-Library.Multiset" "HOL-Library.Extended_Nat"
begin

section \<open>JavaScript strings\<close>

text \<open>
  A JavaScript string is modelled as the list of its characters, each a natural number
  (its code).  A literal is written \<open>str ''abc''\<close>.  The predicate \<open>isSpace\<close> is the
  regular-expression class \<^verbatim>\<open>\s\<close> of ECMAScript (white space and line terminators).
\<close>

type_synonym jsstring = "nat list"

abbreviation str :: "string \<Rightarrow> jsstring" where
  "str s \<equiv> map of_char s"

definition isSpace :: "nat \<Rightarrow> bool" where
  "isSpace c \<longleftrightarrow>
     c = 9 \<or> c = 10 \<or> c = 11 \<or> c = 12 \<or> c = 13 \<or> c = 32 \<or> c = 160 \<or> c = 5760 \<or>
     (8192 \<le> c \<and> c \<le> 8202) \<or> c = 8232 \<or> c = 8233 \<or> c = 8239 \<or> c = 8287 \<or>
     c = 12288 \<or> c = 65279"

definition isNewline :: "nat \<Rightarrow> bool" where
  "isNewline c \<longleftrightarrow> c = 13 \<or> c = 10"

text \<open>\<^verbatim>\<open>s.replace(/[\r\n]+/g, " ")\<close>: every maximal run of CR and LF becomes one space.\<close>

function replaceNewlines :: "jsstring \<Rightarrow> jsstring" where
  "replaceNewlines [] = []"
| "replaceNewlines (c # cs) =
     (if isNewline c then 32 # replaceNewlines (dropWhile isNewline cs)
      else c # replaceNewlines cs)"
  by pat_completeness auto
termination
  by (relation "measure length") (auto simp: less_Suc_eq_le length_dropWhile_le)

text \<open>\<^verbatim>\<open>s.replace(/\s+$/, "")\<close> and \<^verbatim>\<open>s.trim()\<close>.\<close>

definition trimEnd :: "jsstring \<Rightarrow> jsstring" where
  "trimEnd s = rev (dropWhile isSpace (rev s))"

definition trim :: "jsstring \<Rightarrow> jsstring" where
  "trim s = trimEnd (dropWhile isSpace s)"

definition endsWith :: "jsstring \<Rightarrow> jsstring \<Rightarrow> bool" where
  "endsWith s t \<longleftrightarrow> length t \<le> length s \<and> drop (length s - length t) s = t"

definition startsWith :: "jsstring \<Rightarrow> jsstring \<Rightarrow> bool" where
  "startsWith s t \<longleftrightarrow> take (length t) s = t"

section \<open>Suggestion coordinator (index.ts)\<close>

text \<open>
  The module-level variables of the terminal client that the accept operation reads or
  writes.  \<open>autocompleteTimer\<close> holds the text of the debounced request that is
  scheduled, if any; \<open>engineLoaded\<close> is \<^verbatim>\<open>autocompleteEngine.isLoaded()\<close>.
\<close>

record coordinator =
  input :: jsstring
  suggestion :: jsstring
  autocompleteTimer :: "jsstring option"
  isGenerating :: bool
  engineLoaded :: bool

text \<open>
  \<^verbatim>\<open>suggestion.match(/^\s*\S+\s*/)\<close>: leading white space, a non-empty run of
  non-space characters, trailing white space; all three greedy.  There is no match
  when no non-space character follows the leading white space.
\<close>

definition matchWord :: "jsstring \<Rightarrow> jsstring option" where
  "matchWord s =
     (let lead = takeWhile isSpace s;
          r1 = dropWhile isSpace s;
          word = takeWhile (\<lambda>c. \<not> isSpace c) r1;
          r2 = dropWhile (\<lambda>c. \<not> isSpace c) r1;
          trail = takeWhile isSpace r2
      in if word = [] then None else Some (lead @ word @ trail))"

definition acceptSuggestion :: "coordinator \<Rightarrow> jsstring \<times> coordinator" where
  "acceptSuggestion st =
     (if suggestion st = [] then ([], st)
      else
        let rawAccepted = (case matchWord (suggestion st) of Some m \<Rightarrow> m | None \<Rightarrow> suggestion st);
            remaining = drop (length rawAccepted) (suggestion st);
            st' = st\<lparr>suggestion := remaining\<rparr>;
            accepted = trimEnd (replaceNewlines rawAccepted)
        in if accepted = [] then ([], st')
           else if length remaining > 0 then (accepted @ [32], st')
           else (accepted, st'))"

definition cancelAutocomplete :: "coordinator \<Rightarrow> coordinator" where
  "cancelAutocomplete st = st\<lparr>autocompleteTimer := None, isGenerating := False\<rparr>"

definition requestAutocomplete :: "jsstring \<Rightarrow> coordinator \<Rightarrow> coordinator" where
  "requestAutocomplete text st =
     (let st1 = (cancelAutocomplete st)\<lparr>suggestion := []\<rparr>;
          trimmed = trim text
      in if trimmed = [] \<or> \<not> engineLoaded st1 then st1
         else st1\<lparr>autocompleteTimer := Some trimmed\<rparr>)"

text \<open>The Tab branch of \<^verbatim>\<open>handleKey\<close>.\<close>

definition handleTab :: "coordinator \<Rightarrow> coordinator" where
  "handleTab st =
     (if suggestion st \<noteq> [] then
        let (accepted0, st1) = acceptSuggestion st;
            accepted = (if endsWith (input st1) [32] \<and> startsWith accepted0 [32]
                        then drop 1 accepted0 else accepted0);
            st2 = st1\<lparr>input := input st1 @ accepted\<rparr>
        in if suggestion st2 = [] then requestAutocomplete (input st2) st2 else st2
      else st)"

section \<open>Sampling primitives (sampling.ts)\<close>

text \<open>
  A \<^verbatim>\<open>Float32Array\<close> of logits is a list of reals: the arithmetic is exact, so
  rounding to 32 bits, infinities and NaN are outside the model (the one NaN that exact
  arithmetic still produces, \<open>0 / 0\<close> in \<open>softmaxMax\<close> of an empty vector, is the
  value \<open>None\<close>).  A \<^verbatim>\<open>Map<number, number>\<close> is the list of its entries in insertion
  order, its keys distinct.
\<close>

type_synonym tokenCounts = "(nat \<times> nat) list"

text \<open>One iteration of the loop over the entries of \<^verbatim>\<open>tokenCounts\<close>.\<close>

definition penaltyStep :: "real \<Rightarrow> nat \<times> nat \<Rightarrow> real list \<Rightarrow> real list" where
  "penaltyStep penalty entry penalized =
     (case entry of (tid, cnt) \<Rightarrow>
        if tid < length penalized then
          let scaled = penalty ^ cnt
          in penalized[tid := (if penalized ! tid > 0 then penalized ! tid / scaled
                               else penalized ! tid * scaled)]
        else penalized)"

definition applyRepetitionPenalty :: "real list \<Rightarrow> tokenCounts \<Rightarrow> real \<Rightarrow> real list" where
  "applyRepetitionPenalty logits tokenCounts penalty =
     (if penalty \<le> 1 then logits else fold (penaltyStep penalty) tokenCounts logits)"

definition temperatureScale :: "real list \<Rightarrow> real \<Rightarrow> real list" where
  "temperatureScale logits temperature =
     (if temperature \<le> 0 then logits
      else fold (\<lambda>i scaled. scaled[i := logits ! i / temperature])
             [0..<length logits] (replicate (length logits) 0))"

text \<open>
  \<^verbatim>\<open>xs.slice(0, k)\<close> for an integer \<open>k\<close>: a negative \<open>k\<close> counts from the end.
\<close>

definition sliceTo :: "'a list \<Rightarrow> int \<Rightarrow> 'a list" where
  "sliceTo xs k = (if k < 0 then take (nat (int (length xs) + k)) xs else take (nat k) xs)"

text \<open>
  \<^verbatim>\<open>Array.prototype.sort\<close> is stable; with the comparator \<^verbatim>\<open>b.val - a.val\<close> it is the
  stable sort by descending value, here the stable insertion sort of the library on the
  negated value.  An entry is the pair (value, index).
\<close>

definition topKFilter :: "real list \<Rightarrow> int \<Rightarrow> nat list \<times> real list" where
  "topKFilter logits k =
     (let indexed = zip logits [0..<length logits];
          sortedDesc = sort_key (\<lambda>x. - fst x) indexed;
          topK = sliceTo sortedDesc k
      in (map snd topK, map fst topK))"

text \<open>
  \<^verbatim>\<open>Math.max(...logits)\<close>.  For the empty vector JavaScript gives \<open>-Infinity\<close>; no loop
  body runs then, so the value is never read, and the model puts 0 there.
\<close>

definition mathMax :: "real list \<Rightarrow> real" where
  "mathMax xs = (case xs of [] \<Rightarrow> 0 | x # ys \<Rightarrow> fold max ys x)"

definition softmaxMax :: "real list \<Rightarrow> real option" where
  "softmaxMax logits =
     (let maxLogit = mathMax logits;
          (sumExp, maxExp) =
             fold (\<lambda>l (s, m). let e = exp (l - maxLogit) in (s + e, if e > m then e else m))
               logits (0, 0)
      in if logits = [] then None else Some (maxExp / sumExp))"

text \<open>
  The second loop of \<^verbatim>\<open>sampleFromLogits\<close>: the first index whose cumulative sum
  reaches \<open>r\<close>, if any.  \<open>rnd\<close> is the value \<^verbatim>\<open>Math.random()\<close> returned.
\<close>

fun sampleScan :: "real list \<Rightarrow> real \<Rightarrow> nat \<Rightarrow> real \<Rightarrow> nat option" where
  "sampleScan [] r i cumulative = None"
| "sampleScan (e # es) r i cumulative =
     (let c = cumulative + e in if r \<le> c then Some i else sampleScan es r (Suc i) c)"

definition expScoresOf :: "real list \<Rightarrow> real list" where
  "expScoresOf logits = (let maxLogit = mathMax logits in map (\<lambda>l. exp (l - maxLogit)) logits)"

definition sumExpOf :: "real list \<Rightarrow> real" where
  "sumExpOf logits = fold (\<lambda>e s. s + e) (expScoresOf logits) 0"

definition sampleFromLogits :: "real list \<Rightarrow> real \<Rightarrow> int" where
  "sampleFromLogits logits rnd =
     (let expScores = expScoresOf logits;
          sumExp = sumExpOf logits;
          r = rnd * sumExp
      in case sampleScan expScores r 0 0 of
           Some i \<Rightarrow> int i
         | None \<Rightarrow> int (length expScores) - 1)"

text \<open>\<^verbatim>\<open>tokenCounts.get(id) || 0\<close>.\<close>

definition countOf :: "tokenCounts \<Rightarrow> nat \<Rightarrow> nat" where
  "countOf tc t = (case map_of tc t of None \<Rightarrow> 0 | Some c \<Rightarrow> c)"

text \<open>
  The order the result of \<open>topKFilter\<close> is in: descending value, and among equal values
  ascending original index.
\<close>

definition entryBefore :: "real \<times> nat \<Rightarrow> real \<times> nat \<Rightarrow> bool" where
  "entryBefore a b \<longleftrightarrow> fst b < fst a \<or> (fst a = fst b \<and> snd a < snd b)"

subsection \<open>The primitives on a store of arrays\<close>

text \<open>
  To speak about mutation, the typed arrays live in a store: an array is named by its
  address, the store maps addresses to contents, \<^verbatim>\<open>new Float32Array(...)\<close>
  allocates the next address, and an element assignment \<^verbatim>\<open>a[i] = v\<close> updates the
  contents at the address \<open>a\<close>.
\<close>

type_synonym store = "real list list"

definition newFloat32Array :: "store \<Rightarrow> real list \<Rightarrow> nat \<times> store" where
  "newFloat32Array s contents = (length s, s @ [contents])"

definition applyRepetitionPenalty_st ::
  "store \<Rightarrow> nat \<Rightarrow> tokenCounts \<Rightarrow> real \<Rightarrow> nat \<times> store" where
  "applyRepetitionPenalty_st s logits tokenCounts penalty =
     (if penalty \<le> 1 then (logits, s)
      else
        let (penalized, s1) = newFloat32Array s (s ! logits)
        in (penalized,
            fold (\<lambda>entry st. st[penalized := penaltyStep penalty entry (st ! penalized)])
              tokenCounts s1))"

definition temperatureScale_st :: "store \<Rightarrow> nat \<Rightarrow> real \<Rightarrow> nat \<times> store" where
  "temperatureScale_st s logits temperature =
     (if temperature \<le> 0 then (logits, s)
      else
        let (scaled, s1) = newFloat32Array s (replicate (length (s ! logits)) 0)
        in (scaled,
            fold (\<lambda>i st. st[scaled := (st ! scaled)[i := st ! logits ! i / temperature]])
              [0..<length (s ! logits)] s1))"

definition topKFilter_st :: "store \<Rightarrow> nat \<Rightarrow> int \<Rightarrow> (nat list \<times> nat) \<times> store" where
  "topKFilter_st s logits k =
     (let indexed = zip (s ! logits) [0..<length (s ! logits)];
          sortedDesc = sort_key (\<lambda>x. - fst x) indexed;
          topK = sliceTo sortedDesc k;
          (out, s1) = newFloat32Array s (map fst topK)
      in ((map snd topK, out), s1))"

section \<open>Generation engine (autocomplete.ts)\<close>

text \<open>
  The metadata fields that \<^verbatim>\<open>generate\<close> reads, and its options.  An option that is
  absent (\<^verbatim>\<open>undefined\<close>) is \<open>None\<close> and takes its default in the destructuring.
  The abort signal is read once, at the top of a step: \<open>sig n\<close> is the value of
  \<^verbatim>\<open>signal.aborted\<close> that step \<open>n\<close> reads.
\<close>

record generativeMetadata =
  vocab_size :: nat
  default_max_new_tokens :: int
  default_temperature :: real
  default_top_k :: int
  eosTokenId :: nat

record generateOptions =
  maxNewTokens :: "int option"
  temperature :: "real option"
  topK :: "int option"
  minConfidence :: "real option"
  repetitionPenalty :: "real option"
  signal :: "(nat \<Rightarrow> bool) option"

text \<open>
  The engine and its environment.  \<open>loaded\<close> says that session and metadata are set.
  \<open>scorer ids\<close> is the slice \<^verbatim>\<open>lastLogits\<close> of the output of \<^verbatim>\<open>session.run\<close> on the
  sequence \<open>ids\<close>, or \<open>None\<close> when the run throws.  \<open>random n\<close> is the value
  \<^verbatim>\<open>Math.random()\<close> returns in step \<open>n\<close>.
\<close>

record engine =
  loaded :: bool
  metadata :: generativeMetadata
  scorer :: "nat list \<Rightarrow> real list option"
  random :: "nat \<Rightarrow> real"

definition optMaxNewTokens :: "engine \<Rightarrow> generateOptions \<Rightarrow> int" where
  "optMaxNewTokens E opts =
     (case maxNewTokens opts of Some v \<Rightarrow> v | None \<Rightarrow> default_max_new_tokens (metadata E))"

definition optTemperature :: "engine \<Rightarrow> generateOptions \<Rightarrow> real" where
  "optTemperature E opts =
     (case temperature opts of Some v \<Rightarrow> v | None \<Rightarrow> default_temperature (metadata E))"

definition optTopK :: "engine \<Rightarrow> generateOptions \<Rightarrow> int" where
  "optTopK E opts = (case topK opts of Some v \<Rightarrow> v | None \<Rightarrow> default_top_k (metadata E))"

definition optMinConfidence :: "generateOptions \<Rightarrow> real" where
  "optMinConfidence opts = (case minConfidence opts of Some v \<Rightarrow> v | None \<Rightarrow> 0)"

definition optRepetitionPenalty :: "generateOptions \<Rightarrow> real" where
  "optRepetitionPenalty opts = (case repetitionPenalty opts of Some v \<Rightarrow> v | None \<Rightarrow> 1)"

definition aborted :: "generateOptions \<Rightarrow> nat \<Rightarrow> bool" where
  "aborted opts step = (case signal opts of None \<Rightarrow> False | Some sig \<Rightarrow> sig step)"

text \<open>\<^verbatim>\<open>m.set(k, v)\<close> on a \<^verbatim>\<open>Map\<close>: an existing key keeps its place, a new key goes last.\<close>

fun mapSet :: "'k \<Rightarrow> 'v \<Rightarrow> ('k \<times> 'v) list \<Rightarrow> ('k \<times> 'v) list" where
  "mapSet k v [] = [(k, v)]"
| "mapSet k v (e # es) = (if fst e = k then (k, v) # es else e # mapSet k v es)"

definition countTokens :: "nat list \<Rightarrow> tokenCounts" where
  "countTokens ids = fold (\<lambda>t tc. mapSet t (countOf tc t + 1) tc) ids []"

text \<open>
  The candidates of a step: repetition penalty, then temperature, then top-K, on the
  logits the scorer gives for the sequence.
\<close>

definition candidates ::
  "engine \<Rightarrow> generateOptions \<Rightarrow> nat list \<Rightarrow> real list \<Rightarrow> nat list \<times> real list" where
  "candidates E opts ids lastLogits =
     (let tokenCounts = countTokens ids;
          penalizedLogits = applyRepetitionPenalty lastLogits tokenCounts (optRepetitionPenalty opts);
          scaled = temperatureScale penalizedLogits (optTemperature E opts)
      in topKFilter scaled (optTopK E opts))"

text \<open>
  What one iteration of the loop body does after the abort check.  The sequence may hold
  \<^verbatim>\<open>undefined\<close> (\<open>None\<close>): \<^verbatim>\<open>indices[sampledIdx]\<close> is \<^verbatim>\<open>undefined\<close> when the index is
  out of range, it is pushed and yielded as any token, and the conversion of the
  sequence to \<^verbatim>\<open>BigInt\<close> throws in the step after.
\<close>

datatype stepResult = Yield "nat option" | Return | Throw

definition generateStep ::
  "engine \<Rightarrow> generateOptions \<Rightarrow> nat \<Rightarrow> nat option list \<Rightarrow> stepResult" where
  "generateStep E opts step ids =
     (if None \<in> set ids then Throw
      else case scorer E (map the ids) of
        None \<Rightarrow> Throw
      | Some lastLogits \<Rightarrow>
          let (indices, topKLogits) = candidates E opts (map the ids) lastLogits
          in if optMinConfidence opts > 0 \<and>
                (case softmaxMax topKLogits of None \<Rightarrow> False
                 | Some topProb \<Rightarrow> topProb < optMinConfidence opts)
             then Return
             else
               let sampledIdx = sampleFromLogits topKLogits (random E step);
                   nextToken = (if 0 \<le> sampledIdx \<and> nat sampledIdx < length indices
                                then Some (indices ! nat sampledIdx) else None)
               in if nextToken = Some (eosTokenId (metadata E)) then Return else Yield nextToken)"

datatype status = Completed | Aborted | Faulted

text \<open>
  The loop of \<^verbatim>\<open>generate\<close> from step \<open>step\<close> with the working sequence \<open>ids\<close>: the
  tokens it yields from there on, and how the stream ends.
\<close>

function generateLoop ::
  "engine \<Rightarrow> generateOptions \<Rightarrow> nat \<Rightarrow> nat option list \<Rightarrow> nat option list \<times> status" where
  "generateLoop E opts step ids =
     (if int step < optMaxNewTokens E opts then
        if aborted opts step then ([], Aborted)
        else case generateStep E opts step ids of
          Throw \<Rightarrow> ([], Faulted)
        | Return \<Rightarrow> ([], Completed)
        | Yield nextToken \<Rightarrow>
            (case generateLoop E opts (Suc step) (ids @ [nextToken]) of
               (tokens, st) \<Rightarrow> (nextToken # tokens, st))
      else ([], Completed))"
  by pat_completeness auto
termination
  by (relation "measure (\<lambda>(E, opts, step, ids). nat (optMaxNewTokens E opts - int step))") auto

definition generate ::
  "engine \<Rightarrow> generateOptions \<Rightarrow> nat list \<Rightarrow> nat option list \<times> status" where
  "generate E opts inputIds =
     (if \<not> loaded E then ([], Faulted) else generateLoop E opts 0 (map Some inputIds))"

text \<open>
  The stopping condition on confidence, at a working sequence: \<open>minConfidence\<close> is
  positive and the top softmax probability among the filtered candidates is below it.
\<close>

definition lowConfidence :: "engine \<Rightarrow> generateOptions \<Rightarrow> nat option list \<Rightarrow> bool" where
  "lowConfidence E opts ids \<longleftrightarrow>
     optMinConfidence opts > 0 \<and> None \<notin> set ids \<and>
     (case scorer E (map the ids) of
        None \<Rightarrow> False
      | Some lastLogits \<Rightarrow>
          (case softmaxMax (snd (candidates E opts (map the ids) lastLogits)) of
             None \<Rightarrow> False
           | Some topProb \<Rightarrow> topProb < optMinConfidence opts))"

section \<open>Tokenizer (tokenizer.ts)\<close>

subsection \<open>The byte-to-unicode table\<close>

text \<open>
  \<^verbatim>\<open>initByteToUnicode\<close>: the printable bytes stand for themselves, every other byte
  \<open>b\<close>, taken in increasing order, gets the next character from 256 on.  The two tables
  are filled from the two lists, entry by entry.
\<close>

definition printableBytes :: "nat list" where
  "printableBytes = [33..<127] @ [161..<173] @ [174..<256]"

definition codecStep :: "nat \<Rightarrow> nat list \<times> nat list \<times> nat \<Rightarrow> nat list \<times> nat list \<times> nat" where
  "codecStep b st =
     (case st of (bs, cs, n) \<Rightarrow>
        if b \<in> set bs then st else (bs @ [b], cs @ [256 + n], n + 1))"

definition codecLists :: "nat list \<times> nat list" where
  "codecLists =
     (case fold codecStep [0..<256] (printableBytes, printableBytes, 0) of
        (bs, cs, n) \<Rightarrow> (bs, cs))"

definition BYTE_TO_UNICODE :: "nat \<rightharpoonup> nat" where
  "BYTE_TO_UNICODE =
     fold (\<lambda>(b, c) m. m(b \<mapsto> c)) (zip (fst codecLists) (snd codecLists)) Map.empty"


subsection \<open>UTF-8\<close>

text \<open>
  A text is the list of its code points (the regular expression runs with the \<^verbatim>\<open>u\<close>
  flag, and \<^verbatim>\<open>TextEncoder\<close> encodes code points).  \<^verbatim>\<open>TextEncoder.encode\<close> writes a
  lone surrogate as U+FFFD.
\<close>

definition isSurrogate :: "nat \<Rightarrow> bool" where
  "isSurrogate c \<longleftrightarrow> 55296 \<le> c \<and> c \<le> 57343"


definition utf8EncodeCodePoint :: "nat \<Rightarrow> nat list" where
  "utf8EncodeCodePoint c =
     (if c < 128 then [c]
      else if c < 2048 then [192 + c div 64, 128 + c mod 64]
      else if c < 65536 then
        (if isSurrogate c then [239, 191, 189]
         else [224 + c div 4096, 128 + (c div 64) mod 64, 128 + c mod 64])
      else [240 + c div 262144, 128 + (c div 4096) mod 64, 128 + (c div 64) mod 64,
            128 + c mod 64])"

definition textEncode :: "nat list \<Rightarrow> nat list" where
  "textEncode text = concat (map utf8EncodeCodePoint text)"





subsection \<open>Splitting a text into word-like spans\<close>

text \<open>
  The Unicode property classes \<^verbatim>\<open>\p{L}\<close> and \<^verbatim>\<open>\p{N}\<close> are tables of the JavaScript
  engine; the model takes them as parameters.
\<close>

record unicodeTables =
  isLetter :: "nat \<Rightarrow> bool"
  isNumber :: "nat \<Rightarrow> bool"

text \<open>The first alternative: an apostrophe and one of s, d, m, t, ll, ve, re.\<close>

definition matchContraction :: "nat list \<Rightarrow> nat option" where
  "matchContraction s =
     (case s of
        a # c # rest \<Rightarrow>
          if a \<noteq> 39 then None
          else if c = 115 \<or> c = 100 \<or> c = 109 \<or> c = 116 then Some 2
          else (case rest of
                  d # _ \<Rightarrow>
                    if (c = 108 \<and> d = 108) \<or> (c = 118 \<and> d = 101) \<or> (c = 114 \<and> d = 101)
                    then Some 3 else None
                | [] \<Rightarrow> None)
      | _ \<Rightarrow> None)"

text \<open>A greedy non-empty run \<^verbatim>\<open>P+\<close>, and the same after an optional space, \<^verbatim>\<open> ?P+\<close>.\<close>

definition matchRun :: "(nat \<Rightarrow> bool) \<Rightarrow> nat list \<Rightarrow> nat option" where
  "matchRun P s = (let n = length (takeWhile P s) in if n > 0 then Some n else None)"

definition matchSpaceRun :: "(nat \<Rightarrow> bool) \<Rightarrow> nat list \<Rightarrow> nat option" where
  "matchSpaceRun P s =
     (case s of
        c # rest \<Rightarrow>
          if c = 32 then
            (case matchRun P rest of Some n \<Rightarrow> Some (1 + n) | None \<Rightarrow> matchRun P s)
          else matchRun P s
      | [] \<Rightarrow> None)"

text \<open>\<^verbatim>\<open>[\r\n]\s{0,3}\<close> and \<^verbatim>\<open>\s+$\<close>.\<close>

definition matchNewline :: "nat list \<Rightarrow> nat option" where
  "matchNewline s =
     (case s of
        c # rest \<Rightarrow>
          if c = 13 \<or> c = 10 then Some (1 + length (takeWhile isSpace (take 3 rest))) else None
      | [] \<Rightarrow> None)"

definition matchTrailingSpace :: "nat list \<Rightarrow> nat option" where
  "matchTrailingSpace s = (if s \<noteq> [] \<and> list_all isSpace s then Some (length s) else None)"

definition isOther :: "unicodeTables \<Rightarrow> nat \<Rightarrow> bool" where
  "isOther U c \<longleftrightarrow> \<not> isSpace c \<and> \<not> isLetter U c \<and> \<not> isNumber U c"

definition orElse :: "'a option \<Rightarrow> 'a option \<Rightarrow> 'a option" where
  "orElse a b = (case a of Some x \<Rightarrow> Some x | None \<Rightarrow> b)"

text \<open>The length of the match of the whole pattern at the start of \<open>s\<close>, if there is one.\<close>

definition matchAt :: "unicodeTables \<Rightarrow> nat list \<Rightarrow> nat option" where
  "matchAt U s =
     orElse (matchContraction s)
    (orElse (matchSpaceRun (isLetter U) s)
    (orElse (matchSpaceRun (isNumber U) s)
    (orElse (matchSpaceRun (isOther U) s)
    (orElse (matchNewline s) (matchTrailingSpace s)))))"

text \<open>
  \<^verbatim>\<open>text.match(pattern) || []\<close> with the \<^verbatim>\<open>g\<close> flag: the matches from left to right;
  where nothing matches, the search moves on by one code point, and after an empty
  match too.
\<close>

function matchAll :: "unicodeTables \<Rightarrow> nat list \<Rightarrow> nat list list" where
  "matchAll U [] = []"
| "matchAll U (c # cs) =
     (case matchAt U (c # cs) of
        Some n \<Rightarrow> take n (c # cs) # matchAll U (drop (max n 1) (c # cs))
      | None \<Rightarrow> matchAll U cs)"
  by pat_completeness auto
termination
  by (relation "measure (\<lambda>(U, s). length s)") auto

subsection \<open>Byte-pair encoding\<close>

text \<open>
  A symbol is a string, a word a list of symbols.  The tokenizer holds the vocabulary,
  its reverse, the ranks of the merges (keyed by the two symbols joined with a space)
  and the four special ids.
\<close>

type_synonym symbol = jsstring

record specialTokens =
  pad :: nat
  unk :: nat
  bos :: nat
  eos :: nat

record tokenizer =
  vocab :: "symbol \<rightharpoonup> nat"
  reverseVocab :: "nat \<rightharpoonup> symbol"
  merges :: "jsstring \<rightharpoonup> nat"
  special :: specialTokens

definition textToBytes :: "nat list \<Rightarrow> jsstring" where
  "textToBytes text = concat (map (\<lambda>b. case BYTE_TO_UNICODE b of Some c \<Rightarrow> [c] | None \<Rightarrow> [])
                               (textEncode text))"

definition getPairs :: "symbol list \<Rightarrow> (symbol \<times> symbol) list" where
  "getPairs word = map (\<lambda>i. (word ! i, word ! (i + 1))) [0..<length word - 1]"

definition mergeKey :: "symbol \<times> symbol \<Rightarrow> jsstring" where
  "mergeKey pair = fst pair @ [32] @ snd pair"

text \<open>The search for the pair of lowest rank; \<open>minRank\<close> starts at infinity.\<close>

definition pickStep ::
  "(jsstring \<rightharpoonup> nat) \<Rightarrow> symbol \<times> symbol \<Rightarrow> (symbol \<times> symbol) option \<times> enat
     \<Rightarrow> (symbol \<times> symbol) option \<times> enat" where
  "pickStep M pair st =
     (case st of (minPair, minRank) \<Rightarrow>
        (case M (mergeKey pair) of
           Some rank \<Rightarrow> if enat rank < minRank then (Some pair, enat rank) else st
         | None \<Rightarrow> st))"

definition pickMin :: "(jsstring \<rightharpoonup> nat) \<Rightarrow> (symbol \<times> symbol) list \<Rightarrow> (symbol \<times> symbol) option" where
  "pickMin M pairs = fst (fold (pickStep M) pairs (None, \<infinity>))"

text \<open>\<^verbatim>\<open>word.indexOf(x, i)\<close>: the first index from \<open>i\<close> on that holds \<open>x\<close>.\<close>

definition indexOf :: "'a list \<Rightarrow> 'a \<Rightarrow> nat \<Rightarrow> nat option" where
  "indexOf xs x i =
     (if x \<in> set (drop i xs) then Some (i + length (takeWhile (\<lambda>y. y \<noteq> x) (drop i xs)))
      else None)"

text \<open>The inner loop: one pass that merges the occurrences of the pair, left to right.\<close>

function mergeLoop ::
  "symbol list \<Rightarrow> symbol \<Rightarrow> symbol \<Rightarrow> nat \<Rightarrow> symbol list \<Rightarrow> symbol list" where
  "mergeLoop word first second i newWord =
     (if i < length word then
        (case indexOf word first i of
           None \<Rightarrow> newWord @ drop i word
         | Some j \<Rightarrow>
             (let newWord1 = newWord @ take (j - i) (drop i word)
              in if j < length word - 1 \<and> word ! (j + 1) = second
                 then mergeLoop word first second (j + 2) (newWord1 @ [first @ second])
                 else mergeLoop word first second (j + 1) (newWord1 @ [word ! j])))
      else newWord)"
  by pat_completeness auto
termination
  by (relation "measure (\<lambda>(word, first, second, i, newWord). length word - i)")
     (auto simp: indexOf_def split: if_splits)

text \<open>
  The outer loop \<^verbatim>\<open>while (true)\<close>.  Whether it ends is a property to prove, so the
  result is optional: \<open>None\<close> stands for a loop that runs forever.
\<close>

partial_function (option) bpeLoop ::
  "(jsstring \<rightharpoonup> nat) \<Rightarrow> symbol list \<Rightarrow> (symbol \<times> symbol) list \<Rightarrow> symbol list option" where
  "bpeLoop M word pairs =
     (case pickMin M pairs of
        None \<Rightarrow> Some word
      | Some minPair \<Rightarrow>
          (let newWord = mergeLoop word (fst minPair) (snd minPair) 0 []
           in if length newWord = 1 then Some newWord
              else bpeLoop M newWord (getPairs newWord)))"

definition bpe :: "tokenizer \<Rightarrow> jsstring \<Rightarrow> symbol list option" where
  "bpe tk token =
     (if vocab tk token \<noteq> None then Some [token]
      else
        let word = map (\<lambda>c. [c]) token
        in if length word = 0 then Some []
           else
             let pairs = getPairs word
             in if length pairs = 0 then Some [token]
                else bpeLoop (merges tk) word pairs)"

definition tokenizeWord :: "tokenizer \<Rightarrow> nat list \<Rightarrow> nat list option" where
  "tokenizeWord tk word =
     (let byteEncoded = textToBytes word
      in case bpe tk byteEncoded of
           None \<Rightarrow> None
         | Some bpeTokens \<Rightarrow>
             Some (map (\<lambda>token. case vocab tk token of Some v \<Rightarrow> v | None \<Rightarrow> unk (special tk))
                     bpeTokens))"

text \<open>The loop \<^verbatim>\<open>for (const match of matches) tokens.push(...tokenizeWord(match))\<close>.\<close>

fun tokenizeAll :: "tokenizer \<Rightarrow> nat list list \<Rightarrow> nat list \<Rightarrow> nat list option" where
  "tokenizeAll tk [] tokens = Some tokens"
| "tokenizeAll tk (m # ms) tokens =
     (case tokenizeWord tk m of
        None \<Rightarrow> None
      | Some ids \<Rightarrow> tokenizeAll tk ms (tokens @ ids))"

text \<open>The padding loop of \<^verbatim>\<open>encode\<close>.\<close>

function padLoop :: "nat \<Rightarrow> int \<Rightarrow> nat list \<times> nat list \<Rightarrow> nat list \<times> nat list" where
  "padLoop padId maxLength st =
     (case st of (tokens, attentionMask) \<Rightarrow>
        if int (length tokens) < maxLength
        then padLoop padId maxLength (tokens @ [padId], attentionMask @ [0])
        else st)"
  by pat_completeness auto
termination
  by (relation "measure (\<lambda>(padId, maxLength, st). nat (maxLength - int (length (fst st))))") auto

definition encode ::
  "unicodeTables \<Rightarrow> tokenizer \<Rightarrow> nat list \<Rightarrow> int \<Rightarrow> (nat list \<times> nat list) option" where
  "encode U tk text maxLength =
     (let matches = matchAll U text
      in case tokenizeAll tk matches [bos (special tk)] of
           None \<Rightarrow> None
         | Some tokens0 \<Rightarrow>
             let tokens1 = tokens0 @ [eos (special tk)];
                 tokens = (if int (length tokens1) > maxLength then sliceTo tokens1 maxLength
                           else tokens1);
                 attentionMask = replicate (length tokens) 1
             in Some (padLoop (pad (special tk)) maxLength (tokens, attentionMask)))"

definition encodeForGeneration :: "unicodeTables \<Rightarrow> tokenizer \<Rightarrow> nat list \<Rightarrow> nat list option" where
  "encodeForGeneration U tk text = tokenizeAll tk (matchAll U text) [bos (special tk)]"





text \<open>
  \<^verbatim>\<open>load\<close>, from the parsed file: the vocabulary entries fill both maps, a merge gets
  its position as rank, and an added token named as one of the four special tokens
  sets that id.
\<close>

definition specialStep :: "jsstring \<times> nat \<Rightarrow> specialTokens \<Rightarrow> specialTokens" where
  "specialStep token sp =
     (let sp1 = (if fst token = str ''<pad>'' then sp\<lparr>pad := snd token\<rparr> else sp);
          sp2 = (if fst token = str ''<unk>'' then sp1\<lparr>unk := snd token\<rparr> else sp1);
          sp3 = (if fst token = str ''<bos>'' then sp2\<lparr>bos := snd token\<rparr> else sp2)
      in if fst token = str ''<eos>'' then sp3\<lparr>eos := snd token\<rparr> else sp3)"

definition load ::
  "(symbol \<times> nat) list \<Rightarrow> (symbol \<times> symbol) list \<Rightarrow> (jsstring \<times> nat) list \<Rightarrow> tokenizer" where
  "load vocabEntries mergeList addedTokens =
     \<lparr>vocab = fold (\<lambda>(token, v) m. m(token \<mapsto> v)) vocabEntries Map.empty,
      reverseVocab = fold (\<lambda>(token, v) m. m(v \<mapsto> token)) vocabEntries Map.empty,
      merges = fold (\<lambda>(i, merge) m. m(mergeKey merge \<mapsto> i)) (List.enumerate 0 mergeList) Map.empty,
      special = fold specialStep addedTokens \<lparr>pad = 0, unk = 1, bos = 2, eos = 3\<rparr>\<rparr>"

subsection \<open>Closed forms used in the proofs\<close>

text \<open>
  The bytes that are not printable, in increasing order; the character the table gives
  to a byte, and the byte it gives to a character; and a text without a leading byte
  order mark.
\<close>

definition nonPrintableBytes :: "nat list" where
  "nonPrintableBytes = [0..<33] @ [127..<161] @ [173..<174]"

definition byteChar :: "nat \<Rightarrow> nat" where
  "byteChar b =
     (if b < 33 then 256 + b else if b < 127 then b else if b < 161 then 162 + b
      else if b = 173 then 323 else b)"





text \<open>
  The invariant of the search for the pair of lowest rank, after the pairs \<open>seen\<close>.
\<close>

definition pickInvariant ::
  "(jsstring \<rightharpoonup> nat) \<Rightarrow> (symbol \<times> symbol) list
     \<Rightarrow> (symbol \<times> symbol) option \<times> enat \<Rightarrow> bool" where
  "pickInvariant M seen st \<longleftrightarrow>
     (case fst st of
        None \<Rightarrow> snd st = \<infinity> \<and> (\<forall>p\<in>set seen. M (mergeKey p) = None)
      | Some p \<Rightarrow>
          p \<in> set seen \<and>
          (\<exists>r. M (mergeKey p) = Some r \<and> snd st = enat r \<and>
             (\<forall>p'\<in>set seen. \<forall>r'. M (mergeKey p') = Some r' \<longrightarrow> r \<le> r')))"

section \<open>Concrete instances\<close>

text \<open>
  An engine whose scorer gives the logit 0 to each of three tokens, whose random draws
  are the given ones, and whose end-of-sequence id is 2; and the empty options.
\<close>

definition exampleEngine :: "(nat \<Rightarrow> real) \<Rightarrow> engine" where
  "exampleEngine draws = \<lparr>loaded = True,
     metadata = \<lparr>vocab_size = 3, default_max_new_tokens = 3, default_temperature = 1,
       default_top_k = 3, eosTokenId = 2\<rparr>,
     scorer = (\<lambda>ids. Some [0, 0, 0]), random = draws\<rparr>"

definition noOptions :: generateOptions where
  "noOptions = \<lparr>maxNewTokens = None, temperature = None, topK = None, minConfidence = None,
     repetitionPenalty = None, signal = None\<rparr>"

text \<open>
  The letters and digits of ASCII: on the code points below 128 these are the classes
  \<^verbatim>\<open>\p{L}\<close> and \<^verbatim>\<open>\p{N}\<close>.  The instances below apply them to ASCII text and to
  the euro sign U+20AC, a currency symbol, which is in neither class.
\<close>

definition asciiTables :: unicodeTables where
  "asciiTables = \<lparr>isLetter = (\<lambda>c. (65 \<le> c \<and> c \<le> 90) \<or> (97 \<le> c \<and> c \<le> 122)),
                   isNumber = (\<lambda>c. 48 \<le> c \<and> c \<le> 57)\<rparr>"

text \<open>
  A small tokenizer file: the four special tokens, a few symbols, among them the
  characters of the bytes of a space (288) and of the euro sign (226, 292, 172), and
  the merges \<open>h i\<close> and \<open>(space) b\<close>.
\<close>

definition exampleTokenizer :: tokenizer where
  "exampleTokenizer =
     load [(str ''<pad>'', 0), (str ''<unk>'', 1), (str ''<bos>'', 2), (str ''<eos>'', 3),
           (str ''a'', 4), (str ''b'', 5), ([288], 6), ([288, 98], 7), (str ''h'', 8),
           (str ''i'', 9), (str ''hi'', 10), ([226], 11), ([292], 12), ([172], 13)]
          [(str ''h'', str ''i''), ([288], str ''b'')]
          [(str ''<pad>'', 0), (str ''<unk>'', 1), (str ''<bos>'', 2), (str ''<eos>'', 3)]"

section \<open>Properties of the sampling primitives\<close>

subsection \<open>Repetition penalty\<close>

lemma length_fold_penaltyStep [simp]: "length (fold (penaltyStep p) tc xs) = length xs"
  by (induction tc arbitrary: xs) (auto simp: penaltyStep_def Let_def)



lemma length_penaltyStep [simp]: "length (penaltyStep p e xs) = length xs"
  by (cases e) (simp add: penaltyStep_def Let_def)







subsection \<open>Top-K filtering\<close>

lemma entryBefore_ge: "entryBefore a b \<Longrightarrow> fst b \<le> fst a"
  by (auto simp: entryBefore_def)

lemma insort_desc_sorted:
  "sorted_wrt entryBefore ys \<Longrightarrow> \<forall>y\<in>set ys. snd x < snd y \<Longrightarrow>
   sorted_wrt entryBefore (insort_key (\<lambda>x. - fst x) x ys)"
proof (induction ys)
  case Nil
  then show ?case by simp
next
  case (Cons y ys)
  show ?case
  proof (cases "fst y \<le> fst x")
    case True
    have "entryBefore x z" if "z \<in> set (y # ys)" for z
    proof -
      have "fst z \<le> fst y"
        using that Cons.prems(1) by (auto dest: entryBefore_ge)
      moreover have "snd x < snd z" using that Cons.prems(2) by auto
      ultimately show ?thesis using True by (auto simp: entryBefore_def)
    qed
    with Cons.prems(1) True show ?thesis by simp
  next
    case False
    then have "entryBefore y x" by (simp add: entryBefore_def)
    moreover have "sorted_wrt entryBefore (insort_key (\<lambda>x. - fst x) x ys)"
      using Cons by simp
    ultimately show ?thesis
      using False Cons.prems(1) by (auto simp: set_insort_key)
  qed
qed

lemma sort_desc_sorted:
  "sorted_wrt (<) (map snd xs) \<Longrightarrow> sorted_wrt entryBefore (sort_key (\<lambda>x. - fst x) xs)"
proof (induction xs)
  case Nil
  then show ?case by simp
next
  case (Cons x xs)
  then have "sorted_wrt entryBefore (sort_key (\<lambda>x. - fst x) xs)"
    and "\<forall>y\<in>set (sort_key (\<lambda>x. - fst x) xs). snd x < snd y"
    by auto
  then show ?case by (simp add: insort_desc_sorted)
qed

lemma set_indexed:
  "set (zip xs [0..<length xs]) = {(xs ! i, i) | i. i < length xs}"
  by (auto simp: set_zip)

lemma sortedDesc_facts:
  fixes logits :: "real list"
  defines "S \<equiv> sort_key (\<lambda>x. - fst x) (zip logits [0..<length logits])"
  shows "sorted_wrt entryBefore S"
    and "set S = {(logits ! i, i) | i. i < length logits}"
    and "length S = length logits"
    and "distinct (map snd S)"
proof -
  show "sorted_wrt entryBefore S"
    unfolding S_def by (rule sort_desc_sorted) (simp add: sorted_wrt_upt)
  show "set S = {(logits ! i, i) | i. i < length logits}"
    unfolding S_def by (simp add: set_indexed)
  show "length S = length logits"
    unfolding S_def by simp
  have "mset (map snd S) = mset (map snd (zip logits [0..<length logits]))"
    unfolding S_def by (simp only: mset_map mset_sort)
  then have "distinct (map snd S) = distinct (map snd (zip logits [0..<length logits]))"
    by (rule mset_eq_imp_distinct_iff)
  also have "map snd (zip logits [0..<length logits]) = [0..<length logits]"
    by (simp add: map_snd_zip)
  finally show "distinct (map snd S)" by simp
qed

text \<open>
  C5.  For every logit vector and every count \<open>k \<ge> 0\<close>, \<open>topKFilter\<close> returns exactly
  \<open>min k (length logits)\<close> indices and as many values; the values are in descending
  order; the indices are distinct positions of the vector and each value is the logit
  at its index; every returned value is at least every excluded logit; and ties are
  broken by the original order, among the returned entries and between a returned and
  an excluded entry.
\<close>

theorem topKFilter_spec:
  assumes "0 \<le> k"
  shows "case topKFilter logits k of (indices, vals) \<Rightarrow>
      length indices = min (nat k) (length logits)
    \<and> length vals = min (nat k) (length logits)
    \<and> sorted_wrt (\<ge>) vals
    \<and> distinct indices
    \<and> (\<forall>j < length indices. indices ! j < length logits \<and> vals ! j = logits ! (indices ! j))
    \<and> (\<forall>i < length logits. i \<notin> set indices \<longrightarrow>
          (\<forall>j < length indices.
             logits ! i \<le> vals ! j \<and> (logits ! i = vals ! j \<longrightarrow> indices ! j < i)))
    \<and> (\<forall>j1 j2. j1 < j2 \<and> j2 < length indices \<and> vals ! j1 = vals ! j2
          \<longrightarrow> indices ! j1 < indices ! j2)"
proof -
  define S where "S = sort_key (\<lambda>x. - fst x) (zip logits [0..<length logits])"
  define T where "T = take (nat k) S"
  define I where "I = map snd T"
  define V where "V = map fst T"
  have srt: "sorted_wrt entryBefore S"
    and setS: "set S = {(logits ! i, i) | i. i < length logits}"
    and lenS: "length S = length logits"
    and dist: "distinct (map snd S)"
    unfolding S_def by (rule sortedDesc_facts)+
  have res: "topKFilter logits k = (I, V)"
    using assms by (simp add: topKFilter_def sliceTo_def S_def T_def I_def V_def Let_def)
  have lenT: "length T = min (nat k) (length logits)"
    by (simp add: T_def lenS min.commute)
  have lenI: "length I = min (nat k) (length logits)" and lenV: "length V = min (nat k) (length logits)"
    and lenIT: "length I = length T"
    by (simp_all add: I_def V_def lenT)
  have nthI: "I ! j = snd (T ! j)" and nthV: "V ! j = fst (T ! j)" if "j < length T" for j
    using that by (simp_all add: I_def V_def)
  have srtT: "sorted_wrt entryBefore T"
    unfolding T_def using srt by (rule sorted_wrt_take)
  have desc: "sorted_wrt (\<ge>) V"
    unfolding V_def sorted_wrt_map
    by (rule sorted_wrt_mono_rel [OF _ srtT]) (simp add: entryBefore_ge)
  have distI: "distinct I"
    unfolding I_def T_def take_map [symmetric] using dist by (rule distinct_take)
  have entry: "\<forall>j < length I. I ! j < length logits \<and> V ! j = logits ! (I ! j)"
  proof (intro allI impI)
    fix j assume "j < length I"
    then have j: "j < length T" by (simp add: lenIT)
    then have "T ! j \<in> set T" by simp
    then have "T ! j \<in> set S" unfolding T_def by (rule in_set_takeD)
    then have "snd (T ! j) < length logits \<and> fst (T ! j) = logits ! snd (T ! j)"
      unfolding setS by auto
    then show "I ! j < length logits \<and> V ! j = logits ! (I ! j)"
      by (simp add: nthI [OF j] nthV [OF j])
  qed
  have split: "S = T @ drop (nat k) S"
    by (simp add: T_def)
  have cross: "entryBefore a b" if "a \<in> set T" "b \<in> set (drop (nat k) S)" for a b
  proof -
    have "sorted_wrt entryBefore (T @ drop (nat k) S)" using srt split by simp
    then show ?thesis using that by (simp add: sorted_wrt_append)
  qed
  have excl: "\<forall>i < length logits. i \<notin> set I \<longrightarrow>
          (\<forall>j < length I. logits ! i \<le> V ! j \<and> (logits ! i = V ! j \<longrightarrow> I ! j < i))"
  proof (intro allI impI)
    fix i j assume i: "i < length logits" and ni: "i \<notin> set I" and "j < length I"
    then have j: "j < length T" by (simp add: lenIT)
    have "(logits ! i, i) \<in> set S" unfolding setS using i by auto
    then have "(logits ! i, i) \<in> set T \<union> set (drop (nat k) S)"
      using split by (metis set_append)
    moreover have "(logits ! i, i) \<notin> set T" using ni unfolding I_def by force
    ultimately have "(logits ! i, i) \<in> set (drop (nat k) S)" by simp
    moreover have "T ! j \<in> set T" using j by simp
    ultimately have "entryBefore (T ! j) (logits ! i, i)" using cross by blast
    then have "logits ! i \<le> fst (T ! j) \<and> (logits ! i = fst (T ! j) \<longrightarrow> snd (T ! j) < i)"
      by (auto simp: entryBefore_def)
    then show "logits ! i \<le> V ! j \<and> (logits ! i = V ! j \<longrightarrow> I ! j < i)"
      by (simp add: nthI [OF j] nthV [OF j])
  qed
  have ties: "\<forall>j1 j2. j1 < j2 \<and> j2 < length I \<and> V ! j1 = V ! j2 \<longrightarrow> I ! j1 < I ! j2"
  proof (intro allI impI)
    fix j1 j2 assume h: "j1 < j2 \<and> j2 < length I \<and> V ! j1 = V ! j2"
    then have j2: "j2 < length T" and j1: "j1 < length T" and lt: "j1 < j2"
      by (simp_all add: lenIT)
    have "entryBefore (T ! j1) (T ! j2)"
      using srtT lt j2 by (rule sorted_wrt_nth_less)
    moreover have "fst (T ! j1) = fst (T ! j2)"
      using h by (simp add: nthV [OF j1] nthV [OF j2])
    ultimately have "snd (T ! j1) < snd (T ! j2)" by (simp add: entryBefore_def)
    then show "I ! j1 < I ! j2" by (simp add: nthI [OF j1] nthI [OF j2])
  qed
  show ?thesis
    unfolding res prod.case
    using lenI lenV desc distI entry excl ties by blast
qed

theorem topKFilter_spec_witness:
  "(0::int) \<le> 3 \<and> topKFilter [1, 3, 2, 3] 3 = ([1, 3, 2], [3, 3, 2])
   \<and> length (fst (topKFilter [1, 3, 2, 3] 3)) = min (nat 3) (length [1, 3, 2, 3 :: real])
   \<and> sorted_wrt (\<ge>) (snd (topKFilter [1, 3, 2, 3] 3))"
  using topKFilter_spec [of 3 "[1, 3, 2, 3]"]
  by (simp add: topKFilter_def sliceTo_def)

subsection \<open>Softmax sampling\<close>

lemma sampleScan_bounds:
  "sampleScan es r i c = Some j \<Longrightarrow> i \<le> j \<and> j < i + length es"
proof (induction es arbitrary: i c)
  case Nil
  then show ?case by simp
next
  case (Cons e es)
  show ?case
  proof (cases "r \<le> c + e")
    case True
    with Cons.prems show ?thesis by simp
  next
    case False
    with Cons.prems have "sampleScan es r (Suc i) (c + e) = Some j" by simp
    from Cons.IH [OF this] show ?thesis by simp
  qed
qed

text \<open>
  C6 (as amended).  For every non-empty logit vector and every value of the random
  draw, \<open>sampleFromLogits\<close> returns an index into the vector, and it returns the last
  index when the cumulative sum never reaches the drawn threshold.
\<close>

theorem sampleFromLogits_valid:
  assumes "logits \<noteq> []"
  shows "0 \<le> sampleFromLogits logits rnd
       \<and> sampleFromLogits logits rnd < int (length logits)
       \<and> (sampleScan (expScoresOf logits) (rnd * sumExpOf logits) 0 0 = None \<longrightarrow>
            sampleFromLogits logits rnd = int (length logits) - 1)"
proof -
  have len: "length (expScoresOf logits) = length logits"
    by (simp add: expScoresOf_def)
  show ?thesis
  proof (cases "sampleScan (expScoresOf logits) (rnd * sumExpOf logits) 0 0")
    case None
    with assms len show ?thesis by (simp add: sampleFromLogits_def)
  next
    case (Some j)
    from sampleScan_bounds [OF Some] len have "j < length logits" by simp
    with Some show ?thesis by (simp add: sampleFromLogits_def)
  qed
qed

theorem sampleFromLogits_valid_witness:
  "[0, 0] \<noteq> ([] :: real list) \<and> sampleFromLogits [0, 0] (9 / 10) = 1
   \<and> sampleFromLogits [0, 0] (9 / 10) < int (length [0, 0 :: real])
   \<and> sampleFromLogits [0, 0] 5 = 1"
  using sampleFromLogits_valid [of "[0, 0]" "9 / 10"]
  by (simp add: sampleFromLogits_def expScoresOf_def sumExpOf_def mathMax_def)

text \<open>
  For the empty vector no loop body runs and the result is \<open>length - 1 = -1\<close>, which
  is not an index.
\<close>

theorem sampleFromLogits_empty_counterexample:
  "\<not> (0 \<le> sampleFromLogits [] (1 / 2) \<and> sampleFromLogits [] (1 / 2) < int (length ([] :: real list)))"
  by (simp add: sampleFromLogits_def expScoresOf_def sumExpOf_def)

subsection \<open>No primitive writes to its input array\<close>

lemma fold_update_cell:
  assumes "p < length st" "a \<noteq> p"
  shows "length (fold (\<lambda>x st. st[p := h x (st ! a) (st ! p)]) xs st) = length st
       \<and> (\<forall>b. b \<noteq> p \<longrightarrow> fold (\<lambda>x st. st[p := h x (st ! a) (st ! p)]) xs st ! b = st ! b)
       \<and> fold (\<lambda>x st. st[p := h x (st ! a) (st ! p)]) xs st ! p
           = fold (\<lambda>x c. h x (st ! a) c) xs (st ! p)"
  using assms
proof (induction xs arbitrary: st)
  case Nil
  then show ?case by simp
next
  case (Cons x xs)
  let ?st = "st[p := h x (st ! a) (st ! p)]"
  have "p < length ?st" using Cons.prems by simp
  from Cons.IH [OF this Cons.prems(2)] Cons.prems show ?case by simp
qed

lemma temperatureScale_map:
  "0 < t \<Longrightarrow> temperatureScale logits t = map (\<lambda>x. x / t) logits"
proof -
  have "fold (\<lambda>i scaled. scaled[i := logits ! i / t]) [0..<n] acc
          = map (\<lambda>x. x / t) (take n logits) @ drop n acc"
    if "n \<le> length logits" "length acc = length logits" for n acc
    using that
  proof (induction n)
    case 0
    then show ?case by simp
  next
    case (Suc n)
    then have "fold (\<lambda>i scaled. scaled[i := logits ! i / t]) [0..<Suc n] acc
        = (map (\<lambda>x. x / t) (take n logits) @ drop n acc)[n := logits ! n / t]"
      by simp
    also have "\<dots> = map (\<lambda>x. x / t) (take n logits) @ (drop n acc)[0 := logits ! n / t]"
      using Suc.prems by (simp add: list_update_append)
    also have "(drop n acc)[0 := logits ! n / t] = (logits ! n / t) # drop (Suc n) acc"
      using Suc.prems Cons_nth_drop_Suc [of n acc, symmetric] by simp
    also have "map (\<lambda>x. x / t) (take n logits) @ (logits ! n / t) # drop (Suc n) acc
         = map (\<lambda>x. x / t) (take (Suc n) logits) @ drop (Suc n) acc"
      using Suc.prems by (simp add: take_Suc_conv_app_nth)
    finally show ?case .
  qed
  from this [of "length logits" "replicate (length logits) 0"]
  show ?thesis if "0 < t" using that by (simp add: temperatureScale_def)
qed

lemma applyRepetitionPenalty_st_frame:
  assumes "logits < length s"
  shows "case applyRepetitionPenalty_st s logits tc penalty of (r, s') \<Rightarrow>
           (\<forall>a < length s. s' ! a = s ! a)
         \<and> (if penalty \<le> 1 then r = logits \<and> s' = s else r = length s)
         \<and> s' ! r = applyRepetitionPenalty (s ! logits) tc penalty"
proof (cases "penalty \<le> 1")
  case True
  then show ?thesis
    by (simp add: applyRepetitionPenalty_st_def applyRepetitionPenalty_def)
next
  case False
  let ?p = "length s"
  let ?s1 = "s @ [s ! logits]"
  have p: "?p < length ?s1" and a: "logits \<noteq> ?p" using assms by simp_all
  note f = fold_update_cell [OF p a, where h = "\<lambda>x _ c. penaltyStep penalty x c" and xs = tc]
  have cell: "fold (\<lambda>entry st. st[?p := penaltyStep penalty entry (st ! ?p)]) tc ?s1 ! ?p
      = fold (penaltyStep penalty) tc (s ! logits)"
    using f by simp
  have frame: "fold (\<lambda>entry st. st[?p := penaltyStep penalty entry (st ! ?p)]) tc ?s1 ! b = s ! b"
    if "b < length s" for b
    using f that by (simp add: nth_append)
  show ?thesis
    using False cell frame
    by (simp add: applyRepetitionPenalty_st_def applyRepetitionPenalty_def newFloat32Array_def)
qed

lemma temperatureScale_st_frame:
  assumes "logits < length s"
  shows "case temperatureScale_st s logits t of (r, s') \<Rightarrow>
           (\<forall>a < length s. s' ! a = s ! a)
         \<and> (if t \<le> 0 then r = logits \<and> s' = s else r = length s)
         \<and> s' ! r = temperatureScale (s ! logits) t"
proof (cases "t \<le> 0")
  case True
  then show ?thesis
    by (simp add: temperatureScale_st_def temperatureScale_def)
next
  case False
  let ?p = "length s"
  let ?n = "length (s ! logits)"
  let ?s1 = "s @ [replicate ?n 0]"
  have p: "?p < length ?s1" and a: "logits \<noteq> ?p" using assms by simp_all
  note f = fold_update_cell [OF p a, where h = "\<lambda>i la c. c[i := la ! i / t]" and xs = "[0..<?n]"]
  have cell: "fold (\<lambda>i st. st[?p := (st ! ?p)[i := st ! logits ! i / t]]) [0..<?n] ?s1 ! ?p
      = fold (\<lambda>i scaled. scaled[i := s ! logits ! i / t]) [0..<?n] (replicate ?n 0)"
    using f assms by (simp add: nth_append)
  have frame: "fold (\<lambda>i st. st[?p := (st ! ?p)[i := st ! logits ! i / t]]) [0..<?n] ?s1 ! b = s ! b"
    if "b < length s" for b
    using f that by (simp add: nth_append)
  show ?thesis
    using False cell frame
    by (simp add: temperatureScale_st_def temperatureScale_def newFloat32Array_def)
qed

lemma topKFilter_st_frame:
  "case topKFilter_st s logits k of ((indices, r), s') \<Rightarrow>
           (\<forall>a < length s. s' ! a = s ! a)
         \<and> r = length s
         \<and> (indices, s' ! r) = topKFilter (s ! logits) k"
  by (simp add: topKFilter_st_def topKFilter_def newFloat32Array_def Let_def nth_append)

text \<open>
  C10.  Let the input array live at an address of the store.  After
  \<open>applyRepetitionPenalty\<close>, \<open>temperatureScale\<close> and \<open>topKFilter\<close>, every array that
  was in the store, the input among them, has the contents it had before.  The result
  is at a fresh address, except in the no-op cases \<open>penalty \<le> 1\<close> and
  \<open>temperature \<le> 0\<close>, where the input address itself is returned and the store is
  unchanged.  The contents of the result are those the list-level functions compute.
\<close>

theorem sampling_primitives_do_not_mutate:
  assumes "logits < length s"
  shows "(case applyRepetitionPenalty_st s logits tc penalty of (r, s') \<Rightarrow>
           (\<forall>a < length s. s' ! a = s ! a)
         \<and> (if penalty \<le> 1 then r = logits \<and> s' = s else r = length s)
         \<and> s' ! r = applyRepetitionPenalty (s ! logits) tc penalty)
       \<and> (case temperatureScale_st s logits t of (r, s') \<Rightarrow>
           (\<forall>a < length s. s' ! a = s ! a)
         \<and> (if t \<le> 0 then r = logits \<and> s' = s else r = length s)
         \<and> s' ! r = temperatureScale (s ! logits) t)
       \<and> (case topKFilter_st s logits k of ((indices, r), s') \<Rightarrow>
           (\<forall>a < length s. s' ! a = s ! a)
         \<and> r = length s
         \<and> (indices, s' ! r) = topKFilter (s ! logits) k)"
proof (intro conjI)
  show "case applyRepetitionPenalty_st s logits tc penalty of (r, s') \<Rightarrow>
           (\<forall>a < length s. s' ! a = s ! a)
         \<and> (if penalty \<le> 1 then r = logits \<and> s' = s else r = length s)
         \<and> s' ! r = applyRepetitionPenalty (s ! logits) tc penalty"
    by (rule applyRepetitionPenalty_st_frame [OF assms])
  show "case temperatureScale_st s logits t of (r, s') \<Rightarrow>
           (\<forall>a < length s. s' ! a = s ! a)
         \<and> (if t \<le> 0 then r = logits \<and> s' = s else r = length s)
         \<and> s' ! r = temperatureScale (s ! logits) t"
    by (rule temperatureScale_st_frame [OF assms])
  show "case topKFilter_st s logits k of ((indices, r), s') \<Rightarrow>
           (\<forall>a < length s. s' ! a = s ! a)
         \<and> r = length s
         \<and> (indices, s' ! r) = topKFilter (s ! logits) k"
    by (rule topKFilter_st_frame)
qed

theorem sampling_primitives_do_not_mutate_witness:
  "(0::nat) < length [[2, - 1 :: real]]
   \<and> applyRepetitionPenalty_st [[2, - 1]] 0 [(0, 1), (1, 1)] 2 = (1, [[2, - 1], [1, - 2]])
   \<and> applyRepetitionPenalty_st [[2, - 1]] 0 [(0, 1), (1, 1)] 1 = (0, [[2, - 1]])
   \<and> temperatureScale_st [[2, - 1]] 0 2 = (1, [[2, - 1], [1, - 1 / 2]])
   \<and> temperatureScale_st [[2, - 1]] 0 0 = (0, [[2, - 1]])
   \<and> topKFilter_st [[2, - 1]] 0 1 = (([0], 1), [[2, - 1], [2]])"
  using sampling_primitives_do_not_mutate
    [where logits = 0 and s = "[[2, - 1]]" and tc = "[(0, 1), (1, 1)]" and penalty = 2
       and t = 2 and k = 1]
  by (simp add: applyRepetitionPenalty_st_def temperatureScale_st_def topKFilter_st_def
      newFloat32Array_def penaltyStep_def sliceTo_def)

section \<open>Properties of the generation engine\<close>

lemmas engine_eval_defs =
  generate_def optMaxNewTokens_def aborted_def generateStep_def candidates_def
  optRepetitionPenalty_def optTemperature_def optTopK_def optMinConfidence_def
  countTokens_def countOf_def applyRepetitionPenalty_def temperatureScale_def
  topKFilter_def sliceTo_def sampleFromLogits_def expScoresOf_def sumExpOf_def mathMax_def
  softmaxMax_def lowConfidence_def exampleEngine_def noOptions_def

declare generateLoop.simps [simp del]

lemma generateLoop_done:
  "\<not> int step < optMaxNewTokens E opts \<Longrightarrow> generateLoop E opts step ids = ([], Completed)"
  by (subst generateLoop.simps) simp

lemma generateLoop_aborted:
  "int step < optMaxNewTokens E opts \<Longrightarrow> aborted opts step \<Longrightarrow>
   generateLoop E opts step ids = ([], Aborted)"
  by (subst generateLoop.simps) simp

lemma generateLoop_Throw:
  "int step < optMaxNewTokens E opts \<Longrightarrow> \<not> aborted opts step \<Longrightarrow>
   generateStep E opts step ids = Throw \<Longrightarrow> generateLoop E opts step ids = ([], Faulted)"
  by (subst generateLoop.simps) simp

lemma generateLoop_Return:
  "int step < optMaxNewTokens E opts \<Longrightarrow> \<not> aborted opts step \<Longrightarrow>
   generateStep E opts step ids = Return \<Longrightarrow> generateLoop E opts step ids = ([], Completed)"
  by (subst generateLoop.simps) simp

lemma generateLoop_Yield:
  "int step < optMaxNewTokens E opts \<Longrightarrow> \<not> aborted opts step \<Longrightarrow>
   generateStep E opts step ids = Yield t \<Longrightarrow>
   generateLoop E opts step ids =
     (t # fst (generateLoop E opts (Suc step) (ids @ [t])),
      snd (generateLoop E opts (Suc step) (ids @ [t])))"
  by (subst generateLoop.simps) (simp add: case_prod_beta)

lemma generateLoop_cases:
  obtains (finished) "\<not> int step < optMaxNewTokens E opts"
      "generateLoop E opts step ids = ([], Completed)"
  | (cancelled) "int step < optMaxNewTokens E opts" "aborted opts step"
      "generateLoop E opts step ids = ([], Aborted)"
  | (threw) "int step < optMaxNewTokens E opts" "\<not> aborted opts step"
      "generateStep E opts step ids = Throw" "generateLoop E opts step ids = ([], Faulted)"
  | (returned) "int step < optMaxNewTokens E opts" "\<not> aborted opts step"
      "generateStep E opts step ids = Return" "generateLoop E opts step ids = ([], Completed)"
  | (yielded) t where "int step < optMaxNewTokens E opts" "\<not> aborted opts step"
      "generateStep E opts step ids = Yield t"
      "generateLoop E opts step ids =
         (t # fst (generateLoop E opts (Suc step) (ids @ [t])),
          snd (generateLoop E opts (Suc step) (ids @ [t])))"
proof (cases "int step < optMaxNewTokens E opts")
  case False
  then show ?thesis using generateLoop_done finished by blast
next
  case lt: True
  show ?thesis
  proof (cases "aborted opts step")
    case True
    then show ?thesis using lt generateLoop_aborted cancelled by blast
  next
    case na: False
    show ?thesis
    proof (cases "generateStep E opts step ids")
      case (Yield t)
      then show ?thesis using lt na generateLoop_Yield yielded by blast
    next
      case Return
      then show ?thesis using lt na generateLoop_Return returned by blast
    next
      case Throw
      then show ?thesis using lt na generateLoop_Throw threw by blast
    qed
  qed
qed












subsection \<open>Cancellation\<close>

lemma unsignalled_options [simp]:
  "optMaxNewTokens E (opts\<lparr>signal := None\<rparr>) = optMaxNewTokens E opts"
  "optMinConfidence (opts\<lparr>signal := None\<rparr>) = optMinConfidence opts"
  "candidates E (opts\<lparr>signal := None\<rparr>) ids l = candidates E opts ids l"
  "\<not> aborted (opts\<lparr>signal := None\<rparr>) step"
  by (simp_all add: optMaxNewTokens_def aborted_def candidates_def
      optMinConfidence_def optRepetitionPenalty_def optTemperature_def optTopK_def)

lemma unsignalled_step [simp]:
  "generateStep E (opts\<lparr>signal := None\<rparr>) step ids = generateStep E opts step ids"
  unfolding generateStep_def unsignalled_options ..

lemma generateLoop_aborted_length:
  "aborted opts n \<Longrightarrow> step \<le> n \<Longrightarrow>
   length (fst (generateLoop E opts step ids)) \<le> n - step"
proof (induction E opts step ids rule: generateLoop.induct)
  case (1 E opts step ids)
  show ?case
  proof (cases rule: generateLoop_cases [of step E opts ids])
    case (yielded t)
    have "step \<noteq> n" using yielded(2) "1.prems"(1) by auto
    with "1.prems"(2) have le: "Suc step \<le> n" by simp
    from "1.IH" [OF yielded(1,2,3) "1.prems"(1) le] yielded(4) le show ?thesis by simp
  qed simp_all
qed

lemma generateLoop_cancel_take:
  assumes "aborted opts n" and "\<forall>m. step \<le> m \<and> m < n \<longrightarrow> \<not> aborted opts m" and "step \<le> n"
  shows "fst (generateLoop E opts step ids)
           = take (n - step) (fst (generateLoop E (opts\<lparr>signal := None\<rparr>) step ids))"
  using assms
proof (induction E opts step ids rule: generateLoop.induct)
  case (1 E opts step ids)
  let ?o = "opts\<lparr>signal := None\<rparr>"
  show ?case
  proof (cases rule: generateLoop_cases [of step E opts ids])
    case finished
    then have "generateLoop E ?o step ids = ([], Completed)"
      by (simp add: generateLoop_done)
    with finished show ?thesis by simp
  next
    case cancelled
    have "step = n"
    proof (rule ccontr)
      assume "step \<noteq> n"
      with "1.prems"(3) have "step < n" by simp
      with "1.prems"(2) cancelled(2) show False by auto
    qed
    with cancelled show ?thesis by simp
  next
    case threw
    then have "generateLoop E ?o step ids = ([], Faulted)"
      by (simp add: generateLoop_Throw)
    with threw show ?thesis by simp
  next
    case returned
    then have "generateLoop E ?o step ids = ([], Completed)"
      by (simp add: generateLoop_Return)
    with returned show ?thesis by simp
  next
    case (yielded t)
    have "step \<noteq> n" using yielded(2) "1.prems"(1) by auto
    with "1.prems"(3) have le: "Suc step \<le> n" by simp
    have quiet: "\<forall>m. Suc step \<le> m \<and> m < n \<longrightarrow> \<not> aborted opts m"
      using "1.prems"(2) by auto
    have u: "generateLoop E ?o step ids =
               (t # fst (generateLoop E ?o (Suc step) (ids @ [t])),
                snd (generateLoop E ?o (Suc step) (ids @ [t])))"
      using yielded(1,3) by (intro generateLoop_Yield) simp_all
    have "n - step = Suc (n - Suc step)" using le by simp
    with "1.IH" [OF yielded(1,2,3) "1.prems"(1) quiet le] yielded(4) u
    show ?thesis by simp
  qed
qed

text \<open>
  C7.  Let the run have a cancellation signal.  If the signal is set when the run
  starts, the stream is empty.  If the signal is set at the top of step \<open>n\<close>, the
  stream has at most \<open>n\<close> tokens.  If step \<open>n\<close> is the first to see the signal set, the
  stream is exactly the first \<open>n\<close> tokens of the run without a signal: the steps that
  began before are not cut short, and nothing is yielded from step \<open>n\<close> on.
\<close>

theorem generate_cancellation:
  assumes "signal opts = Some sig"
  shows "(sig 0 \<longrightarrow> fst (generate E opts inputIds) = [])
       \<and> (\<forall>n. sig n \<longrightarrow> length (fst (generate E opts inputIds)) \<le> n)
       \<and> (\<forall>n. sig n \<and> (\<forall>m < n. \<not> sig m) \<longrightarrow>
              fst (generate E opts inputIds)
                = take n (fst (generate E (opts\<lparr>signal := None\<rparr>) inputIds)))"
proof (cases "loaded E")
  case False
  then show ?thesis by (simp add: generate_def)
next
  case True
  then have g: "generate E opts inputIds = generateLoop E opts 0 (map Some inputIds)"
    and g': "generate E (opts\<lparr>signal := None\<rparr>) inputIds
               = generateLoop E (opts\<lparr>signal := None\<rparr>) 0 (map Some inputIds)"
    by (simp_all add: generate_def)
  have ab: "aborted opts n = sig n" for n
    using assms by (simp add: aborted_def)
  have b: "\<forall>n. sig n \<longrightarrow> length (fst (generate E opts inputIds)) \<le> n"
    unfolding g using generateLoop_aborted_length [of opts _ 0 E] ab by auto
  then have a: "sig 0 \<longrightarrow> fst (generate E opts inputIds) = []"
    by auto
  have c: "\<forall>n. sig n \<and> (\<forall>m < n. \<not> sig m) \<longrightarrow>
              fst (generate E opts inputIds)
                = take n (fst (generate E (opts\<lparr>signal := None\<rparr>) inputIds))"
  proof (intro allI impI)
    fix n assume h: "sig n \<and> (\<forall>m < n. \<not> sig m)"
    then have "aborted opts n" and "\<forall>m. 0 \<le> m \<and> m < n \<longrightarrow> \<not> aborted opts m"
      by (simp_all add: ab)
    from generateLoop_cancel_take [OF this, of E "map Some inputIds"]
    show "fst (generate E opts inputIds)
            = take n (fst (generate E (opts\<lparr>signal := None\<rparr>) inputIds))"
      unfolding g g' by simp
  qed
  from a b c show ?thesis by blast
qed

lemma example_uncancelled:
  "generate (exampleEngine (\<lambda>n. 0)) noOptions [1] = ([Some 0, Some 0, Some 0], Completed)"
  by (simp add: engine_eval_defs generateLoop.simps)

lemma example_cancelled:
  "generate (exampleEngine (\<lambda>n. 0)) (noOptions\<lparr>signal := Some (\<lambda>n. 1 \<le> n)\<rparr>) [1]
     = ([Some 0], Aborted)"
  "generate (exampleEngine (\<lambda>n. 0)) (noOptions\<lparr>signal := Some (\<lambda>n. True)\<rparr>) [1]
     = ([], Aborted)"
  by (simp_all add: engine_eval_defs generateLoop.simps)

theorem generate_cancellation_witness:
  "generate (exampleEngine (\<lambda>n. 0)) (noOptions\<lparr>signal := Some (\<lambda>n. 1 \<le> n)\<rparr>) [1]
     = ([Some 0], Aborted)
   \<and> generate (exampleEngine (\<lambda>n. 0)) noOptions [1] = ([Some 0, Some 0, Some 0], Completed)
   \<and> generate (exampleEngine (\<lambda>n. 0)) (noOptions\<lparr>signal := Some (\<lambda>n. True)\<rparr>) [1]
     = ([], Aborted)
   \<and> fst (generate (exampleEngine (\<lambda>n. 0)) (noOptions\<lparr>signal := Some (\<lambda>n. 1 \<le> n)\<rparr>) [1])
     = take 1 (fst (generate (exampleEngine (\<lambda>n. 0))
         (noOptions\<lparr>signal := Some (\<lambda>n. 1 \<le> n), signal := None\<rparr>) [1]))"
  using generate_cancellation
      [of "noOptions\<lparr>signal := Some (\<lambda>n. 1 \<le> n)\<rparr>" "\<lambda>n. 1 \<le> n" "exampleEngine (\<lambda>n. 0)" "[1]"]
    example_uncancelled example_cancelled
  by simp

section \<open>Properties of the tokenizer\<close>

subsection \<open>The byte-to-unicode table is a bijection\<close>

lemma fold_codecStep:
  "distinct xs \<Longrightarrow>
   fold codecStep xs (bs, cs, n) =
     (bs @ filter (\<lambda>b. b \<notin> set bs) xs,
      cs @ map (\<lambda>k. 256 + n + k) [0..<length (filter (\<lambda>b. b \<notin> set bs) xs)],
      n + length (filter (\<lambda>b. b \<notin> set bs) xs))"
proof (induction xs arbitrary: bs cs n)
  case Nil
  then show ?case by simp
next
  case (Cons x xs)
  show ?case
  proof (cases "x \<in> set bs")
    case True
    with Cons show ?thesis by (simp add: codecStep_def)
  next
    case False
    have f: "filter (\<lambda>b. b \<notin> set (bs @ [x])) xs = filter (\<lambda>b. b \<notin> set bs) xs"
      using Cons.prems by (intro filter_cong) auto
    let ?F = "filter (\<lambda>b. b \<notin> set bs) xs"
    have m: "map (\<lambda>k. 256 + n + k) [0..<Suc (length ?F)]
               = (256 + n) # map (\<lambda>k. 256 + (n + 1) + k) [0..<length ?F]"
    proof -
      have "[0..<Suc (length ?F)] = 0 # map Suc [0..<length ?F]"
        by (simp add: upt_conv_Cons map_Suc_upt del: upt_Suc)
      then show ?thesis by (simp add: comp_def del: upt_Suc)
    qed
    have "fold codecStep (x # xs) (bs, cs, n) = fold codecStep xs (bs @ [x], cs @ [256 + n], n + 1)"
      using False by (simp add: codecStep_def)
    also have "\<dots> = ((bs @ [x]) @ ?F,
        (cs @ [256 + n]) @ map (\<lambda>k. 256 + (n + 1) + k) [0..<length ?F], (n + 1) + length ?F)"
      using Cons.IH [of "bs @ [x]" "cs @ [256 + n]" "n + 1"] Cons.prems f by simp
    finally show ?thesis using False m by simp
  qed
qed

lemma set_printableBytes:
  "set printableBytes = {33..<127} \<union> {161..<173} \<union> {174..<256}"
  by (auto simp: printableBytes_def simp del: upt_rec_numeral)

lemma upt_split: "a \<le> b \<Longrightarrow> b \<le> c \<Longrightarrow> [a..<c] = [a..<b] @ [b..<c]"
  using upt_add_eq_append [of a b "c - b"] by simp

lemma filter_nonPrintable:
  "filter (\<lambda>b. b \<notin> set printableBytes) [0..<256] = nonPrintableBytes"
proof -
  have split: "[0..<256] = [0..<33] @ [33..<127] @ [127..<161] @ [161..<173] @ [173..<174] @ [174..<256]"
    by (simp only: upt_split [of 0 33 256] upt_split [of 33 127 256] upt_split [of 127 161 256]
        upt_split [of 161 173 256] upt_split [of 173 174 256])
  have t: "filter (\<lambda>b. b \<notin> set printableBytes) [a..<b] = [a..<b]"
    if "b \<le> 33 \<or> (127 \<le> a \<and> b \<le> 161) \<or> (173 \<le> a \<and> b \<le> 174)" for a b
    using that by (intro filter_True) (auto simp: set_printableBytes)
  have f: "filter (\<lambda>b. b \<notin> set printableBytes) [a..<b] = []"
    if "(33 \<le> a \<and> b \<le> 127) \<or> (161 \<le> a \<and> b \<le> 173) \<or> (174 \<le> a \<and> b \<le> 256)" for a b
    using that by (intro filter_False) (auto simp: set_printableBytes)
  show ?thesis
    unfolding split filter_append nonPrintableBytes_def
    by (simp add: t f del: upt_rec_numeral)
qed

lemma codecLists_eq:
  "codecLists = (printableBytes @ nonPrintableBytes,
                 printableBytes @ map (\<lambda>k. 256 + k) [0..<length nonPrintableBytes])"
  unfolding codecLists_def
  by (simp add: fold_codecStep filter_nonPrintable del: upt_rec_numeral)

lemma length_nonPrintableBytes: "length nonPrintableBytes = 68"
  by (simp add: nonPrintableBytes_def del: upt_rec_numeral)

lemma codec_chars: "snd codecLists = map byteChar (fst codecLists)"
proof -
  have p: "map byteChar printableBytes = printableBytes"
    by (rule map_idI) (auto simp: set_printableBytes byteChar_def)
  have n: "map (\<lambda>k. 256 + k) [0..<length nonPrintableBytes] = map byteChar nonPrintableBytes"
  proof (rule nth_equalityI)
    show "length (map (\<lambda>k. 256 + k) [0..<length nonPrintableBytes])
            = length (map byteChar nonPrintableBytes)"
      by simp
    fix i assume "i < length (map (\<lambda>k. 256 + k) [0..<length nonPrintableBytes])"
    then have i: "i < 68" by (simp add: length_nonPrintableBytes)
    then have "nonPrintableBytes ! i = (if i < 33 then i else if i < 67 then 94 + i else 173)"
      by (auto simp: nonPrintableBytes_def nth_append simp del: upt_rec_numeral)
    then show "map (\<lambda>k. 256 + k) [0..<length nonPrintableBytes] ! i
                 = map byteChar nonPrintableBytes ! i"
      using i by (simp add: length_nonPrintableBytes byteChar_def del: upt_rec_numeral)
  qed
  show ?thesis by (simp add: codecLists_eq p n del: upt_rec_numeral)
qed

lemma codec_bytes: "set (fst codecLists) = {0..<256}" "distinct (fst codecLists)"
proof -
  show "set (fst codecLists) = {0..<256}"
    by (auto simp: codecLists_eq set_printableBytes nonPrintableBytes_def
        simp del: upt_rec_numeral)
  have "distinct printableBytes"
    by (auto simp: printableBytes_def simp del: upt_rec_numeral)
  moreover have "distinct nonPrintableBytes"
    by (auto simp: nonPrintableBytes_def simp del: upt_rec_numeral)
  moreover have "set printableBytes \<inter> set nonPrintableBytes = {}"
    by (auto simp: set_printableBytes nonPrintableBytes_def simp del: upt_rec_numeral)
  ultimately show "distinct (fst codecLists)"
    by (simp add: codecLists_eq)
qed


lemma fold_upd_map_of:
  "fold (\<lambda>(k, v) m. m(k \<mapsto> v)) xs m0 = m0 ++ map_of (rev xs)"
proof (induction xs arbitrary: m0)
  case Nil
  then show ?case by simp
next
  case (Cons x xs)
  obtain k v where x: "x = (k, v)" by (cases x)
  have "fold (\<lambda>(k, v) m. m(k \<mapsto> v)) (x # xs) m0 = (m0(k \<mapsto> v)) ++ map_of (rev xs)"
    unfolding x by (simp only: fold_simps case_prod_conv Cons.IH)
  also have "\<dots> = m0 ++ map_of (rev (x # xs))"
    by (auto simp: x map_add_def fun_eq_iff split: option.splits)
  finally show ?case .
qed

lemma map_of_rev_distinct:
  "distinct (map fst xs) \<Longrightarrow> map_of (rev xs) = map_of xs"
  by (subst map_of_inject_set) (simp_all add: rev_map [symmetric])

lemma BYTE_TO_UNICODE_eq:
  "BYTE_TO_UNICODE b = (if b < 256 then Some (byteChar b) else None)"
proof -
  let ?bs = "fst codecLists"
  have eq: "BYTE_TO_UNICODE = map_of (zip ?bs (map byteChar ?bs))"
    unfolding BYTE_TO_UNICODE_def codec_chars fold_upd_map_of
    by (simp add: map_of_rev_distinct codec_bytes)
  show ?thesis unfolding eq by (simp add: map_of_zip_map codec_bytes)
qed





subsection \<open>UTF-8 decoding inverts encoding\<close>












subsection \<open>The merge pass\<close>

declare mergeLoop.simps [simp del]

lemma length_takeWhile_less_mem:
  assumes "x \<in> set xs" "\<not> P x"
  shows "length (takeWhile P xs) < length xs"
proof (rule ccontr)
  assume "\<not> length (takeWhile P xs) < length xs"
  then have "length (takeWhile P xs) = length xs"
    using length_takeWhile_le [of P xs] by simp
  then have "takeWhile P xs = xs"
    using takeWhile_eq_take [of P xs] by simp
  then have "\<forall>y\<in>set xs. P y" by (simp only: takeWhile_eq_all_conv)
  with assms show False by simp
qed

lemma nth_in_drop: "i \<le> k \<Longrightarrow> k < length xs \<Longrightarrow> xs ! k \<in> set (drop i xs)"
proof -
  assume a: "i \<le> k" "k < length xs"
  then have "drop i xs ! (k - i) = xs ! k" by simp
  moreover have "k - i < length (drop i xs)" using a by simp
  ultimately show ?thesis by (metis nth_mem)
qed

lemma indexOf_Some:
  assumes "indexOf xs x i = Some j"
  shows "i \<le> j" "j < length xs" "xs ! j = x" "\<forall>k. i \<le> k \<and> k < j \<longrightarrow> xs ! k \<noteq> x"
proof -
  let ?d = "drop i xs"
  let ?t = "takeWhile (\<lambda>y. y \<noteq> x) ?d"
  from assms have mem: "x \<in> set ?d" and j: "j = i + length ?t"
    by (auto simp: indexOf_def split: if_splits)
  show "i \<le> j" using j by simp
  have lt: "length ?t < length ?d"
    using mem by (rule length_takeWhile_less_mem) simp
  then show jl: "j < length xs" using j by simp
  have "\<not> (?d ! length ?t \<noteq> x)"
    using lt by (rule nth_length_takeWhile)
  then show "xs ! j = x" using j jl by simp
  show "\<forall>k. i \<le> k \<and> k < j \<longrightarrow> xs ! k \<noteq> x"
  proof (intro allI impI)
    fix k assume k: "i \<le> k \<and> k < j"
    then have kt: "k - i < length ?t" using j by auto
    then have "?t ! (k - i) \<in> set ?t" by simp
    then have "?t ! (k - i) \<noteq> x" by (auto dest: set_takeWhileD)
    moreover have "?t ! (k - i) = ?d ! (k - i)" using kt by (rule takeWhile_nth)
    moreover have "?d ! (k - i) = xs ! k" using k jl by simp
    ultimately show "xs ! k \<noteq> x" by simp
  qed
qed

lemma indexOf_None: "indexOf xs x i = None \<Longrightarrow> x \<notin> set (drop i xs)"
  by (auto simp: indexOf_def split: if_splits)

lemma drop_split_at:
  assumes "i \<le> j" "j < length xs"
  shows "drop i xs = take (j - i) (drop i xs) @ xs ! j # drop (Suc j) xs"
proof -
  have "drop i xs = take (j - i) (drop i xs) @ drop (j - i) (drop i xs)"
    by (simp only: append_take_drop_id)
  also have "drop (j - i) (drop i xs) = drop j xs" using assms by simp
  also have "drop j xs = xs ! j # drop (Suc j) xs"
    using assms by (simp add: Cons_nth_drop_Suc)
  finally show ?thesis .
qed

lemma mergeLoop_concat:
  "concat (mergeLoop word f s i acc) = concat acc @ concat (drop i word)"
proof (induction word f s i acc rule: mergeLoop.induct)
  case (1 word f s i acc)
  show ?case
  proof (cases "i < length word")
    case False
    then show ?thesis by (subst mergeLoop.simps) simp
  next
    case True
    show ?thesis
    proof (cases "indexOf word f i")
      case None
      with True show ?thesis by (subst mergeLoop.simps) simp
    next
      case (Some j)
      note j = indexOf_Some [OF Some]
      note sp = drop_split_at [OF j(1,2)]
      let ?acc1 = "acc @ take (j - i) (drop i word)"
      show ?thesis
      proof (cases "j < length word - 1 \<and> word ! (j + 1) = s")
        case m: True
        then have "Suc j < length word" and "word ! Suc j = s" by auto
        then have d: "drop (Suc j) word = s # drop (j + 2) word"
          using Cons_nth_drop_Suc [of "Suc j" word] by simp
        have "mergeLoop word f s i acc = mergeLoop word f s (j + 2) (?acc1 @ [f @ s])"
          using True Some m by (subst mergeLoop.simps) simp
        also have "concat \<dots> = concat (?acc1 @ [f @ s]) @ concat (drop (j + 2) word)"
          using "1.IH"(1) [OF True Some refl m] by simp
        also have "\<dots> = concat acc @ concat (drop i word)"
          by (subst (2) sp) (simp add: d j(3))
        finally show ?thesis .
      next
        case m: False
        have "mergeLoop word f s i acc = mergeLoop word f s (j + 1) (?acc1 @ [word ! j])"
          using True Some m by (subst mergeLoop.simps) auto
        also have "concat \<dots> = concat (?acc1 @ [word ! j]) @ concat (drop (j + 1) word)"
          using "1.IH"(2) [OF True Some refl m] by simp
        also have "\<dots> = concat acc @ concat (drop i word)"
          by (subst (2) sp) simp
        finally show ?thesis .
      qed
    qed
  qed
qed

lemma mergeLoop_length_le:
  "length (mergeLoop word f s i acc) \<le> length acc + (length word - i)"
proof (induction word f s i acc rule: mergeLoop.induct)
  case (1 word f s i acc)
  show ?case
  proof (cases "i < length word")
    case False
    then show ?thesis by (subst mergeLoop.simps) simp
  next
    case True
    show ?thesis
    proof (cases "indexOf word f i")
      case None
      with True show ?thesis by (subst mergeLoop.simps) simp
    next
      case (Some j)
      note j = indexOf_Some [OF Some]
      let ?acc1 = "acc @ take (j - i) (drop i word)"
      have l1: "length (?acc1 @ [x]) = length acc + (j - i) + 1" for x
        using j by simp
      show ?thesis
      proof (cases "j < length word - 1 \<and> word ! (j + 1) = s")
        case m: True
        have eq: "mergeLoop word f s i acc = mergeLoop word f s (j + 2) (?acc1 @ [f @ s])"
          using True Some m by (subst mergeLoop.simps) simp
        have "length (mergeLoop word f s (j + 2) (?acc1 @ [f @ s]))
                 \<le> length acc + (j - i) + 1 + (length word - (j + 2))"
          using "1.IH"(1) [OF True Some refl m] by (simp only: l1)
        then show ?thesis unfolding eq using j(1,2) m by linarith
      next
        case m: False
        have eq: "mergeLoop word f s i acc = mergeLoop word f s (j + 1) (?acc1 @ [word ! j])"
          using True Some m by (subst mergeLoop.simps) auto
        have "length (mergeLoop word f s (j + 1) (?acc1 @ [word ! j]))
                 \<le> length acc + (j - i) + 1 + (length word - (j + 1))"
          using "1.IH"(2) [OF True Some refl m] by (simp only: l1)
        then show ?thesis unfolding eq using j(1,2) by linarith
      qed
    qed
  qed
qed

lemma mergeLoop_length_less:
  assumes "i \<le> k" "k + 1 < length word" "word ! k = f" "word ! (k + 1) = s"
  shows "length (mergeLoop word f s i acc) < length acc + (length word - i)"
  using assms
proof (induction word f s i acc rule: mergeLoop.induct)
  case (1 word f s i acc)
  from "1.prems" have True: "i < length word" by simp
  show ?case
  proof (cases "indexOf word f i")
    case None
    have "word ! k \<in> set (drop i word)"
      using "1.prems"(1,2) by (intro nth_in_drop) simp_all
    with indexOf_None [OF None] "1.prems"(3) show ?thesis by simp
  next
    case (Some j)
    note j = indexOf_Some [OF Some]
    have jk: "j \<le> k"
    proof (rule ccontr)
      assume "\<not> j \<le> k"
      with j(4) "1.prems"(1) have "word ! k \<noteq> f" by auto
      with "1.prems"(3) show False by simp
    qed
    let ?acc1 = "acc @ take (j - i) (drop i word)"
    have l1: "length (?acc1 @ [x]) = length acc + (j - i) + 1" for x
      using j by simp
    show ?thesis
    proof (cases "j < length word - 1 \<and> word ! (j + 1) = s")
      case m: True
      have eq: "mergeLoop word f s i acc = mergeLoop word f s (j + 2) (?acc1 @ [f @ s])"
        using True Some m by (subst mergeLoop.simps) simp
      have "length (mergeLoop word f s (j + 2) (?acc1 @ [f @ s]))
                 \<le> length acc + (j - i) + 1 + (length word - (j + 2))"
        using mergeLoop_length_le [of word f s "j + 2" "?acc1 @ [f @ s]"] by (simp only: l1)
      then show ?thesis unfolding eq using j(1,2) m by linarith
    next
      case m: False
      have "j \<noteq> k" using m "1.prems" by auto
      with jk have jk': "j + 1 \<le> k" by simp
      have eq: "mergeLoop word f s i acc = mergeLoop word f s (j + 1) (?acc1 @ [word ! j])"
        using True Some m by (subst mergeLoop.simps) auto
      have "length (mergeLoop word f s (j + 1) (?acc1 @ [word ! j]))
                 < length acc + (j - i) + 1 + (length word - (j + 1))"
        using "1.IH"(2) [OF True Some refl m jk' "1.prems"(2,3,4)] by (simp only: l1)
      then show ?thesis unfolding eq using j(1,2) by linarith
    qed
  qed
qed

subsection \<open>The choice of the pair to merge\<close>

lemma getPairs_iff:
  "(a, b) \<in> set (getPairs word) \<longleftrightarrow>
     (\<exists>k. k + 1 < length word \<and> word ! k = a \<and> word ! (k + 1) = b)"
  by (auto simp: getPairs_def image_iff Bex_def less_diff_conv)

lemma pickStep_invariant:
  assumes "pickInvariant M seen st"
  shows "pickInvariant M (seen @ [pair]) (pickStep M pair st)"
proof (cases "M (mergeKey pair)")
  case None
  with assms show ?thesis
    by (cases st) (auto simp: pickInvariant_def pickStep_def split: option.splits)
next
  case (Some rank)
  obtain mp mr where st: "st = (mp, mr)" by (cases st)
  show ?thesis
  proof (cases "enat rank < mr")
    case True
    with assms Some st show ?thesis
      by (auto simp: pickInvariant_def pickStep_def split: option.splits)
  next
    case False
    with assms Some st show ?thesis
      by (auto simp: pickInvariant_def pickStep_def split: option.splits)
  qed
qed

lemma fold_pickStep_invariant:
  "pickInvariant M seen st \<Longrightarrow> pickInvariant M (seen @ pairs) (fold (pickStep M) pairs st)"
proof (induction pairs arbitrary: seen st)
  case Nil
  then show ?case by simp
next
  case (Cons p pairs)
  from Cons.IH [OF pickStep_invariant [OF Cons.prems, of p]] show ?case by simp
qed

lemma pickMin_invariant:
  "pickInvariant M pairs (fold (pickStep M) pairs (None, \<infinity>))"
  using fold_pickStep_invariant [of M "[]" "(None, \<infinity>)" pairs]
  by (simp add: pickInvariant_def)

lemma pickMin_Some:
  assumes "pickMin M pairs = Some p"
  shows "p \<in> set pairs"
    and "\<exists>r. M (mergeKey p) = Some r \<and>
            (\<forall>p'\<in>set pairs. \<forall>r'. M (mergeKey p') = Some r' \<longrightarrow> r \<le> r')"
  using pickMin_invariant [of M pairs] assms
  by (auto simp: pickInvariant_def pickMin_def)

lemma pickMin_None:
  "pickMin M pairs = None \<longleftrightarrow> (\<forall>p\<in>set pairs. M (mergeKey p) = None)"
  using pickMin_invariant [of M pairs]
  by (auto simp: pickInvariant_def pickMin_def split: option.splits)

lemma merge_shortens:
  assumes "pickMin M (getPairs word) = Some p"
  shows "length (mergeLoop word (fst p) (snd p) 0 []) < length word"
proof -
  from pickMin_Some(1) [OF assms] have "(fst p, snd p) \<in> set (getPairs word)" by simp
  then obtain k where "k + 1 < length word" "word ! k = fst p" "word ! (k + 1) = snd p"
    unfolding getPairs_iff by blast
  from mergeLoop_length_less [OF _ this, of 0 "[]"] show ?thesis by simp
qed

subsection \<open>The merge-resolution loop ends\<close>

lemma bpeLoop_total:
  "\<exists>w. bpeLoop M word (getPairs word) = Some w \<and> concat w = concat word"
proof (induction "length word" arbitrary: word rule: less_induct)
  case less
  show ?case
  proof (cases "pickMin M (getPairs word)")
    case None
    then show ?thesis by (subst bpeLoop.simps) simp
  next
    case (Some p)
    let ?new = "mergeLoop word (fst p) (snd p) 0 []"
    have c: "concat ?new = concat word" by (simp add: mergeLoop_concat)
    show ?thesis
    proof (cases "length ?new = 1")
      case True
      with Some c show ?thesis by (subst bpeLoop.simps) simp
    next
      case False
      from less [OF merge_shortens [OF Some]]
      obtain w where "bpeLoop M ?new (getPairs ?new) = Some w" "concat w = concat ?new"
        by blast
      with Some False c show ?thesis by (subst bpeLoop.simps) simp
    qed
  qed
qed

lemma bpe_total: "\<exists>syms. bpe tk token = Some syms \<and> concat syms = token"
proof -
  have c: "concat (map (\<lambda>c. [c]) token) = token" by (induction token) simp_all
  from bpeLoop_total [of "merges tk" "map (\<lambda>c. [c]) token"] c
  show ?thesis by (auto simp: bpe_def Let_def)
qed

text \<open>
  C9.  The merge-resolution loop ends on every word, and so does \<open>bpe\<close> on every
  string.  An iteration that goes on has chosen a pair of adjacent symbols that has a
  rank, the lowest among the adjacent pairs, and its merge pass makes the word
  strictly shorter.  The loop exits when no adjacent pair has a rank: then, and only
  then, no pair is chosen, and the word is returned as it is.
\<close>

theorem bpe_terminates:
  "(\<exists>syms. bpe tk token = Some syms)
   \<and> (\<exists>w. bpeLoop M word (getPairs word) = Some w)
   \<and> (\<forall>p. pickMin M (getPairs word) = Some p \<longrightarrow>
          p \<in> set (getPairs word)
        \<and> (\<exists>r. M (mergeKey p) = Some r \<and>
               (\<forall>p'\<in>set (getPairs word). \<forall>r'. M (mergeKey p') = Some r' \<longrightarrow> r \<le> r'))
        \<and> length (mergeLoop word (fst p) (snd p) 0 []) < length word)
   \<and> (pickMin M (getPairs word) = None \<longleftrightarrow> (\<forall>p\<in>set (getPairs word). M (mergeKey p) = None))
   \<and> (pickMin M (getPairs word) = None \<longrightarrow> bpeLoop M word (getPairs word) = Some word)"
proof -
  have a: "\<exists>syms. bpe tk token = Some syms"
    using bpe_total [of tk token] by blast
  have b: "\<exists>w. bpeLoop M word (getPairs word) = Some w"
    using bpeLoop_total [of M word] by blast
  have c: "\<forall>p. pickMin M (getPairs word) = Some p \<longrightarrow>
          p \<in> set (getPairs word)
        \<and> (\<exists>r. M (mergeKey p) = Some r \<and>
               (\<forall>p'\<in>set (getPairs word). \<forall>r'. M (mergeKey p') = Some r' \<longrightarrow> r \<le> r'))
        \<and> length (mergeLoop word (fst p) (snd p) 0 []) < length word"
    using pickMin_Some merge_shortens by blast
  have d: "pickMin M (getPairs word) = None \<longleftrightarrow> (\<forall>p\<in>set (getPairs word). M (mergeKey p) = None)"
    by (rule pickMin_None)
  have e: "pickMin M (getPairs word) = None \<longrightarrow> bpeLoop M word (getPairs word) = Some word"
    by (subst bpeLoop.simps) simp
  from a b c d e show ?thesis by blast
qed

lemmas tokenizer_eval_defs =
  exampleTokenizer_def load_def specialStep_def mergeKey_def getPairs_def pickMin_def
  pickStep_def indexOf_def bpe_def Let_def

lemma example_pick:
  "pickMin (merges exampleTokenizer) (getPairs [str ''h'', str ''i'', str ''b''])
     = Some (str ''h'', str ''i'')"
  "pickMin (merges exampleTokenizer) (getPairs [str ''hi'', str ''b'']) = None"
  by (simp_all add: tokenizer_eval_defs upt_rec)

lemma example_merge:
  "mergeLoop [str ''h'', str ''i'', str ''b''] (str ''h'') (str ''i'') 0 [] = [str ''hi'', str ''b'']"
  by (simp add: mergeLoop.simps indexOf_def)

lemma example_bpe:
  "bpe exampleTokenizer (str ''hib'') = Some [str ''hi'', str ''b'']"
  by (simp add: tokenizer_eval_defs upt_rec bpeLoop.simps mergeLoop.simps)

theorem bpe_terminates_witness:
  "bpe exampleTokenizer (str ''hib'') = Some [str ''hi'', str ''b'']
   \<and> pickMin (merges exampleTokenizer) (getPairs [str ''h'', str ''i'', str ''b''])
       = Some (str ''h'', str ''i'')
   \<and> length (mergeLoop [str ''h'', str ''i'', str ''b''] (str ''h'') (str ''i'') 0 [])
       < length [str ''h'', str ''i'', str ''b'']
   \<and> pickMin (merges exampleTokenizer) (getPairs [str ''hi'', str ''b'']) = None
   \<and> bpeLoop (merges exampleTokenizer) [str ''hi'', str ''b''] (getPairs [str ''hi'', str ''b''])
       = Some [str ''hi'', str ''b'']"
  using bpe_terminates [of exampleTokenizer "str ''hib''" "merges exampleTokenizer"
      "[str ''h'', str ''i'', str ''b'']"]
    bpe_terminates [of exampleTokenizer "str ''hib''" "merges exampleTokenizer"
      "[str ''hi'', str ''b'']"]
    example_pick example_merge example_bpe
  by simp

subsection \<open>Encoding with padding\<close>

declare padLoop.simps [simp del]

lemma tokenizeWord_total: "\<exists>ids. tokenizeWord tk m = Some ids"
  using bpe_total [of tk "textToBytes m"] by (auto simp: tokenizeWord_def Let_def)

lemma tokenizeAll_total: "\<exists>ids. tokenizeAll tk ms acc = Some (acc @ ids)"
proof (induction ms arbitrary: acc)
  case Nil
  then show ?case by simp
next
  case (Cons m ms)
  obtain ids where ids: "tokenizeWord tk m = Some ids"
    using tokenizeWord_total by blast
  from Cons.IH [of "acc @ ids"] obtain rest where
    "tokenizeAll tk ms (acc @ ids) = Some ((acc @ ids) @ rest)" by blast
  with ids show ?case by simp
qed

lemma padLoop_eq:
  "padLoop padId maxLength (tokens, msk) =
     (tokens @ replicate (nat (maxLength - int (length tokens))) padId,
      msk @ replicate (nat (maxLength - int (length tokens))) 0)"
proof (induction padId maxLength "(tokens, msk)" arbitrary: tokens msk rule: padLoop.induct)
  case (1 padId maxLength)
  show ?case
  proof (cases "int (length tokens) < maxLength")
    case False
    then show ?thesis by (subst padLoop.simps) simp
  next
    case True
    then have n: "nat (maxLength - int (length tokens))
                    = Suc (nat (maxLength - int (length (tokens @ [padId]))))"
      by simp
    have "padLoop padId maxLength (tokens, msk)
            = padLoop padId maxLength (tokens @ [padId], msk @ [0])"
      using True by (subst padLoop.simps) simp
    also have "\<dots> = ((tokens @ [padId]) @ replicate (nat (maxLength - int (length (tokens @ [padId])))) padId,
                      (msk @ [0]) @ replicate (nat (maxLength - int (length (tokens @ [padId])))) 0)"
      using "1.hyps" [OF refl True] .
    also have "\<dots> = (tokens @ replicate (nat (maxLength - int (length tokens))) padId,
                      msk @ replicate (nat (maxLength - int (length tokens))) 0)"
      unfolding n by simp
    finally show ?thesis .
  qed
qed

lemma encode_eq:
  assumes "0 \<le> maxLength" "encodeForGeneration U tk text = Some raw0"
  shows "encode U tk text maxLength =
     Some (take (nat maxLength) (raw0 @ [eos (special tk)])
             @ replicate (nat maxLength - length (raw0 @ [eos (special tk)])) (pad (special tk)),
           replicate (min (nat maxLength) (length (raw0 @ [eos (special tk)]))) 1
             @ replicate (nat maxLength - length (raw0 @ [eos (special tk)])) 0)"
proof -
  let ?raw = "raw0 @ [eos (special tk)]"
  let ?L = "nat maxLength"
  let ?tokens = "if int (length ?raw) > maxLength then sliceTo ?raw maxLength else ?raw"
  have t: "?tokens = take ?L ?raw"
    using assms(1) by (auto simp: sliceTo_def)
  have len: "length (take ?L ?raw) = min ?L (length ?raw)" by (simp add: min.commute)
  have n: "nat (maxLength - int (length (take ?L ?raw))) = ?L - length ?raw"
    using assms(1) by (simp add: min_def) linarith
  have "encode U tk text maxLength
          = Some (padLoop (pad (special tk)) maxLength (?tokens, replicate (length ?tokens) 1))"
    using assms(2) by (simp add: encode_def encodeForGeneration_def Let_def)
  also have "\<dots> = Some (padLoop (pad (special tk)) maxLength
                       (take ?L ?raw, replicate (min ?L (length ?raw)) 1))"
    unfolding t len ..
  finally show ?thesis unfolding padLoop_eq n .
qed

text \<open>
  C3.  For every text and every length \<open>L \<ge> 0\<close>, \<open>encode\<close> returns; the ids and the
  mask both have exactly \<open>L\<close> elements; the ids are the begin token, the tokens of
  the text and the end token, cut to \<open>L\<close> first and then padded on the right with the
  pad id; and the mask is 1 at a position exactly when the position holds one of those
  tokens, 0 exactly when it holds appended padding.
\<close>

theorem encode_padding:
  assumes "0 \<le> maxLength"
  shows "\<exists>raw0 inputIds attentionMask.
       encodeForGeneration U tk text = Some raw0
     \<and> encode U tk text maxLength = Some (inputIds, attentionMask)
     \<and> length inputIds = nat maxLength
     \<and> length attentionMask = nat maxLength
     \<and> inputIds = take (nat maxLength) (raw0 @ [eos (special tk)])
           @ replicate (nat maxLength - length (raw0 @ [eos (special tk)])) (pad (special tk))
     \<and> attentionMask = replicate (min (nat maxLength) (length (raw0 @ [eos (special tk)]))) 1
           @ replicate (nat maxLength - length (raw0 @ [eos (special tk)])) 0
     \<and> (\<forall>i < nat maxLength.
           (attentionMask ! i = 1 \<longleftrightarrow> i < length (raw0 @ [eos (special tk)]))
         \<and> (attentionMask ! i = 0 \<longleftrightarrow> length (raw0 @ [eos (special tk)]) \<le> i)
         \<and> (i < length (raw0 @ [eos (special tk)])
                \<longrightarrow> inputIds ! i = (raw0 @ [eos (special tk)]) ! i)
         \<and> (length (raw0 @ [eos (special tk)]) \<le> i \<longrightarrow> inputIds ! i = pad (special tk)))"
proof -
  obtain ids where "tokenizeAll tk (matchAll U text) [bos (special tk)]
                      = Some ([bos (special tk)] @ ids)"
    using tokenizeAll_total by blast
  then obtain raw0 where raw0: "encodeForGeneration U tk text = Some raw0"
    by (simp add: encodeForGeneration_def)
  define raw where "raw = raw0 @ [eos (special tk)]"
  define L where "L = nat maxLength"
  define n where "n = min L (length raw)"
  define inputIds where "inputIds = take L raw @ replicate (L - length raw) (pad (special tk))"
  define attentionMask where
    "attentionMask = replicate n (1::nat) @ replicate (L - length raw) 0"
  have enc: "encode U tk text maxLength = Some (inputIds, attentionMask)"
    unfolding inputIds_def attentionMask_def n_def raw_def L_def
    by (rule encode_eq [OF assms raw0])
  have n: "n + (L - length raw) = L" "length (take L raw) = n"
    by (auto simp: n_def min_def)
  have l1: "length inputIds = L" and l2: "length attentionMask = L"
    using n by (simp_all add: inputIds_def attentionMask_def del: length_take)
  have pos: "(attentionMask ! i = 1 \<longleftrightarrow> i < length raw) \<and> (attentionMask ! i = 0 \<longleftrightarrow> length raw \<le> i)
           \<and> (i < length raw \<longrightarrow> inputIds ! i = raw ! i)
           \<and> (length raw \<le> i \<longrightarrow> inputIds ! i = pad (special tk))"
    if "i < L" for i
  proof (cases "i < length raw")
    case True
    with that have "i < n" by (simp add: n_def)
    moreover have "take L raw ! i = raw ! i" using that by simp
    ultimately have "attentionMask ! i = 1" and "inputIds ! i = raw ! i"
      using n(2) by (simp_all add: attentionMask_def inputIds_def nth_append del: length_take nth_take)
    with True show ?thesis by simp
  next
    case False
    with that have a: "\<not> i < n" and b: "i - n < L - length raw"
      by (simp_all add: n_def min_def)
    have "attentionMask ! i = 0"
      using a b by (simp add: attentionMask_def nth_append)
    moreover have "inputIds ! i = pad (special tk)"
      using a b n(2) by (simp add: inputIds_def nth_append del: length_take)
    ultimately show ?thesis using False by simp
  qed
  from raw0 enc l1 l2 pos show ?thesis
    unfolding inputIds_def attentionMask_def n_def raw_def L_def by blast
qed

lemma example_vocab:
  "vocab exampleTokenizer = map_of [(str ''<pad>'', 0), (str ''<unk>'', 1), (str ''<bos>'', 2),
           (str ''<eos>'', 3), (str ''a'', 4), (str ''b'', 5), ([288], 6), ([288, 98], 7),
           (str ''h'', 8), (str ''i'', 9), (str ''hi'', 10), ([226], 11), ([292], 12),
           ([172], 13)]"
  "special exampleTokenizer = \<lparr>pad = 0, unk = 1, bos = 2, eos = 3\<rparr>"
  by (simp_all add: exampleTokenizer_def load_def specialStep_def fun_eq_iff)

lemma example_matches:
  "matchAll asciiTables (str ''hib'') = [str ''hib'']"
  by (simp add: matchAt_def orElse_def matchContraction_def matchSpaceRun_def matchRun_def
      asciiTables_def)

lemma example_bytes: "textToBytes (str ''hib'') = str ''hib''"
  by (simp add: textToBytes_def textEncode_def utf8EncodeCodePoint_def BYTE_TO_UNICODE_eq
      byteChar_def)

lemma example_encodeForGeneration:
  "encodeForGeneration asciiTables exampleTokenizer (str ''hib'') = Some [2, 10, 5]"
  unfolding encodeForGeneration_def example_matches tokenizeAll.simps tokenizeWord_def
    example_bytes example_bpe Let_def
  by (simp add: example_vocab)

theorem encode_padding_witness:
  "encode asciiTables exampleTokenizer (str ''hib'') 6 = Some ([2, 10, 5, 3, 0, 0], [1, 1, 1, 1, 0, 0])
   \<and> encode asciiTables exampleTokenizer (str ''hib'') 3 = Some ([2, 10, 5], [1, 1, 1])"
  using encode_padding [of 6 asciiTables exampleTokenizer "str ''hib''"]
    encode_padding [of 3 asciiTables exampleTokenizer "str ''hib''"]
    example_encodeForGeneration
  by (auto simp: example_vocab numeral_eq_Suc)

subsection \<open>Decoding an encoded text\<close>




lemma textEncode_concat: "textEncode (concat ms) = concat (map textEncode ms)"
  by (induction ms) (simp_all add: textEncode_def)











declare matchAll.simps [simp del]











section \<open>Accepting one word\<close>

lemma acceptSuggestion_world:
  "acceptSuggestion (st\<lparr>suggestion := str '' world peace now''\<rparr>)
     = (str '' world '', st\<lparr>suggestion := str ''peace now''\<rparr>)"
  by (simp add: acceptSuggestion_def matchWord_def Let_def trimEnd_def isSpace_def isNewline_def)

text \<open>
  C8 (as amended).  With the pending suggestion \<open>'' world peace now''\<close>, the Tab key
  leaves the pending suggestion \<open>''peace now''\<close> and appends the accepted word to the
  input: \<open>''world ''\<close> when the input already ends with a space, and \<open>'' world ''\<close>, with
  the leading space of the suggestion, otherwise.  Nothing else changes.
\<close>

theorem accept_one_word:
  "handleTab (st\<lparr>suggestion := str '' world peace now''\<rparr>) =
     st\<lparr>input := input st @ (if endsWith (input st) [32] then str ''world '' else str '' world ''),
        suggestion := str ''peace now''\<rparr>"
  unfolding handleTab_def acceptSuggestion_world by (simp add: startsWith_def)

theorem accept_one_word_witness:
  "handleTab \<lparr>input = str ''hello '', suggestion = str '' world peace now'',
       autocompleteTimer = None, isGenerating = False, engineLoaded = True\<rparr>
     = \<lparr>input = str ''hello world '', suggestion = str ''peace now'',
       autocompleteTimer = None, isGenerating = False, engineLoaded = True\<rparr>"
  using accept_one_word [of "\<lparr>input = str ''hello '', suggestion = [],
       autocompleteTimer = None, isGenerating = False, engineLoaded = True\<rparr>"]
  by (simp add: endsWith_def)

text \<open>
  The claim as stated fails when the input does not end with a space: from the input
  \<open>''hello''\<close> the new input is \<open>''hello world ''\<close>, so the text appended is
  \<open>'' world ''\<close> and not \<open>''world ''\<close>.
\<close>

theorem accept_one_word_counterexample:
  "input (handleTab \<lparr>input = str ''hello'', suggestion = str '' world peace now'',
       autocompleteTimer = None, isGenerating = False, engineLoaded = True\<rparr>)
     \<noteq> str ''hello'' @ str ''world ''"
  by (simp add: handleTab_def acceptSuggestion_def matchWord_def Let_def trimEnd_def
      isSpace_def isNewline_def startsWith_def endsWith_def)

end
